theory Spec2Isabelle
  imports Main "HOL-Library.AList"
begin

section \<open>Nested dictionaries as values\<close>

text \<open>
  A nested dictionary of \<^verbatim>\<open>nestdictutils/utils.py\<close> is a Python \<^verbatim>\<open>dict\<close> whose values are
  either dictionaries again or anything else. A Python dictionary keeps its keys in
  insertion order and the functions of the module iterate in that order, so a dictionary
  is an association list here: \<open>map_of\<close> is \<^verbatim>\<open>d[k]\<close>, \<open>AList.update k v\<close> is
  \<^verbatim>\<open>d[k] = v\<close> (an existing key keeps its position, a new key goes to the end) and
  \<open>AList.delete k\<close> is \<^verbatim>\<open>del d[k]\<close>. The keys are any type with equality. A leaf is any
  value that is not a dictionary. Every function of the module but \<^verbatim>\<open>recursive_replace\<close>
  tests \<^verbatim>\<open>isinstance(..., dict)\<close> before it looks into a value, so it never looks into a
  leaf; what a leaf does when \<^verbatim>\<open>recursive_replace\<close> uses it as a container is given by
  the \<open>leaf_ops\<close> below. Two leaves are equal for Python's \<^verbatim>\<open>==\<close> when they are the same
  value.
\<close>

datatype ('k, 'a) tree = Leaf 'a | Dict "('k \<times> ('k, 'a) tree) list"

text \<open>
  A key path travels either as a Python list (what \<^verbatim>\<open>recursive_iter_key_paths\<close> yields:
  \<^verbatim>\<open>key_path + [key]\<close>) or as a tuple (what the docstrings pass to
  \<^verbatim>\<open>recursive_add\<close> and \<^verbatim>\<open>recursive_build\<close>). Both support \<^verbatim>\<open>len\<close>, indexing and
  slicing; only the tuple is hashable, and a list never equals a tuple.
\<close>

datatype 'k path = PyList "'k list" | PyTuple "'k list"

fun keys_of :: "'k path \<Rightarrow> 'k list" where
  "keys_of (PyList ks) = ks"
| "keys_of (PyTuple ks) = ks"

fun hashable :: "'k path \<Rightarrow> bool" where
  "hashable (PyList ks) = False"
| "hashable (PyTuple ks) = True"

datatype type_error = Unhashable | Not_subscriptable | Not_iterable | No_item_assignment

datatype ('k, 'v) error =
    AttributeError
  | IndexError
  | TypeError type_error
  | KeyError "'k list"
  | ValueError "'k list" 'v 'v

text \<open>
  What a leaf does when it is used as a container, with values of type \<open>'v\<close> in it:
  \<open>leaf_contains x k\<close> is \<^verbatim>\<open>k in x\<close>, \<open>leaf_getitem x k\<close> is \<^verbatim>\<open>x[k]\<close> and
  \<open>leaf_setitem x k v\<close> is \<^verbatim>\<open>x[k] = v\<close>, each with the exception it raises or its result
  (for the assignment, the leaf afterwards). \<open>leaf_updated x k v\<close> is the leaf \<open>x\<close>
  once the object it holds under \<open>k\<close> has been mutated into \<open>v\<close>. A number raises
  \<^verbatim>\<open>TypeError\<close> on all three; a list reads, tests membership and assigns.
\<close>

record ('k, 'a, 'v) leaf_ops =
  leaf_contains :: "'a \<Rightarrow> 'k \<Rightarrow> ('k, 'v) error + bool"
  leaf_getitem :: "'a \<Rightarrow> 'k \<Rightarrow> ('k, 'v) error + 'v"
  leaf_setitem :: "'a \<Rightarrow> 'k \<Rightarrow> 'v \<Rightarrow> ('k, 'v) error + 'a"
  leaf_updated :: "'a \<Rightarrow> 'k \<Rightarrow> 'v \<Rightarrow> 'a"

text \<open>
  Python's \<^verbatim>\<open>==\<close> on dictionaries ignores the order of the keys: two dictionaries are
  equal when they have the same number of keys and every key of the first is a key of
  the second with an equal value. Leaves are compared as values, so a leaf is equal to
  itself; a leaf such as a floating-point NaN, which Python finds different from
  itself, is not among the leaves here.
\<close>

fun py_eq :: "('k, 'a) tree \<Rightarrow> ('k, 'a) tree \<Rightarrow> bool" where
  "py_eq (Leaf a) (Leaf b) = (a = b)"
| "py_eq (Dict xs) (Dict ys) =
     (length xs = length ys \<and>
      list_all (\<lambda>(k, v). case map_of ys k of None \<Rightarrow> False | Some w \<Rightarrow> py_eq v w) xs)"
| "py_eq _ _ = False"

text \<open>The keys of a Python dictionary are unique, at every level of the nesting.\<close>

fun wf_tree :: "('k, 'a) tree \<Rightarrow> bool" where
  "wf_tree (Leaf x) = True"
| "wf_tree (Dict d) = (distinct (map fst d) \<and> list_all (\<lambda>(k, v). wf_tree v) d)"

text \<open>The dictionary of the docstrings: \<^verbatim>\<open>{1: 2, 3: {4: 5}, 6: {3: {7: 8}, 7: 10}, 7: 11}\<close>.\<close>

definition T_example :: "(int, int) tree" where
  "T_example =
     Dict [(1, Leaf 2), (3, Dict [(4, Leaf 5)]),
           (6, Dict [(3, Dict [(7, Leaf 8)]), (7, Leaf 10)]), (7, Leaf 11)]"


section \<open>\<^verbatim>\<open>recursive_get_values_from_key\<close>\<close>

text \<open>
  \<^verbatim>\<open>recursive_step(d, key, values)\<close> appends \<^verbatim>\<open>d[key]\<close> when the key is in \<^verbatim>\<open>d\<close>, then
  loops over the items of \<^verbatim>\<open>d\<close> and calls itself on every value that is a dictionary.
  The list \<^verbatim>\<open>values\<close> is mutated in place; here it is passed and returned.
\<close>

fun get_values_step ::
    "('k \<times> ('k, 'a) tree) list \<Rightarrow> 'k \<Rightarrow> ('k, 'a) tree list \<Rightarrow> ('k, 'a) tree list"
  and get_values_items ::
    "('k \<times> ('k, 'a) tree) list \<Rightarrow> 'k \<Rightarrow> ('k, 'a) tree list \<Rightarrow> ('k, 'a) tree list"
where
  "get_values_step d key values =
     get_values_items d key
       (case map_of d key of Some v \<Rightarrow> values @ [v] | None \<Rightarrow> values)"
| "get_values_items [] key values = values"
| "get_values_items ((k, Leaf x) # rest) key values = get_values_items rest key values"
| "get_values_items ((k, Dict d) # rest) key values =
     get_values_items rest key (get_values_step d key values)"

fun recursive_get_values_from_key ::
    "('k, 'a) tree \<Rightarrow> 'k \<Rightarrow> ('k, ('k, 'a) tree) error + ('k, 'a) tree list" where
  "recursive_get_values_from_key (Leaf x) key = Inl AttributeError"
| "recursive_get_values_from_key (Dict d) key = Inr (get_values_step d key [])"


section \<open>\<^verbatim>\<open>recursive_iter_key_paths\<close>\<close>

text \<open>
  The generator's \<^verbatim>\<open>recursive_step(d, key_path)\<close> loops over the items of \<^verbatim>\<open>d\<close>; for a
  value that is a dictionary it first yields everything the recursive call on that value
  yields, with \<^verbatim>\<open>key_path + [key]\<close> as the new prefix; then it yields the pair of
  \<^verbatim>\<open>key_path + [key]\<close> (a Python list) and the value. The generator is consumed to its
  end by its callers, so it is the list of what it yields.
\<close>

fun iter_step ::
    "('k \<times> ('k, 'a) tree) list \<Rightarrow> 'k list \<Rightarrow> ('k path \<times> ('k, 'a) tree) list" where
  "iter_step [] key_path = []"
| "iter_step ((key, Leaf x) # rest) key_path =
     (PyList (key_path @ [key]), Leaf x) # iter_step rest key_path"
| "iter_step ((key, Dict d) # rest) key_path =
     iter_step d (key_path @ [key]) @
     (PyList (key_path @ [key]), Dict d) # iter_step rest key_path"

fun recursive_iter_key_paths ::
    "('k, 'a) tree \<Rightarrow> ('k, ('k, 'a) tree) error + ('k path \<times> ('k, 'a) tree) list" where
  "recursive_iter_key_paths (Leaf x) = Inl AttributeError"
| "recursive_iter_key_paths (Dict d) = Inr (iter_step d [])"


section \<open>\<^verbatim>\<open>recursive_add\<close>\<close>

text \<open>
  The module logs its warnings through \<^verbatim>\<open>logger.warning\<close>; here a call returns the
  warnings it logged, in order. \<open>Not_added value init_key_path\<close> is the warning of
  \<^verbatim>\<open>recursive_add\<close> ("It was not possible to add element ... at position ..."),
  \<open>Duplicate_key_path key_path value\<close> the one of \<^verbatim>\<open>recursive_build\<close> ("You provided
  several instances of the key path ... Only (key_path, value) will be used").
\<close>

datatype ('k, 'v) warning =
    Not_added 'v "'k path"
  | Duplicate_key_path "'k path" 'v

text \<open>
  What a call with an \<^verbatim>\<open>in_place\<close> flag leaves behind: the value it returns (the new
  dictionary, or Python's \<^verbatim>\<open>None\<close>), the caller's dictionary after the call, and the
  warnings logged.
\<close>

record ('k, 'a) outcome =
  returned :: "('k, 'a) tree option"
  argument :: "('k, 'a) tree"
  warnings :: "('k, ('k, 'a) tree) warning list"

text \<open>
  The end of every function with an \<^verbatim>\<open>in_place\<close> flag: \<^verbatim>\<open>if not in_place: return new_d\<close>.
  Otherwise the function returns \<^verbatim>\<open>None\<close> and the caller's dictionary is the mutated one.
\<close>

definition finish ::
    "bool \<Rightarrow> ('k, 'a) tree \<Rightarrow> ('k, 'a) tree \<Rightarrow> ('k, ('k, 'a) tree) warning list \<Rightarrow> ('k, 'a) outcome" where
  "finish in_place d new_d w =
     (if \<not> in_place then \<lparr>returned = Some new_d, argument = d, warnings = w\<rparr>
      else \<lparr>returned = None, argument = new_d, warnings = w\<rparr>)"

text \<open>
  In this section dictionaries are values, so \<^verbatim>\<open>copy.deepcopy(d)\<close> is \<open>d\<close> itself and a
  mutation of the copy is a new value. (The store model at the end of the file has
  object identity, for the properties about sharing.)
\<close>

definition deepcopy :: "('k, 'a) tree \<Rightarrow> ('k, 'a) tree" where
  "deepcopy d = d"

text \<open>
  \<^verbatim>\<open>recursive_step(d, key_path, value, init_key_path)\<close> of \<^verbatim>\<open>recursive_add\<close>. When \<^verbatim>\<open>d\<close>
  is not a dictionary it logs the warning and returns. With one key left it assigns;
  otherwise (also for the empty path, where \<^verbatim>\<open>key_path[0]\<close> raises \<^verbatim>\<open>IndexError\<close>) it
  creates an empty dictionary under a missing first key and calls itself on
  \<^verbatim>\<open>d[key_path[0]]\<close> with \<^verbatim>\<open>key_path[1:]\<close>. The call mutates the object under the key;
  as a value, the dictionary gets the mutated value back under the same key.
\<close>

fun add_step ::
    "('k, 'a) tree \<Rightarrow> 'k list \<Rightarrow> ('k, 'a) tree \<Rightarrow> 'k path \<Rightarrow>
     ('k, ('k, 'a) tree) error + (('k, 'a) tree \<times> ('k, ('k, 'a) tree) warning list)" where
  "add_step (Leaf x) key_path val init_key_path =
     Inr (Leaf x, [Not_added val init_key_path])"
| "add_step (Dict d) [] val init_key_path = Inl IndexError"
| "add_step (Dict d) [k] val init_key_path = Inr (Dict (AList.update k val d), [])"
| "add_step (Dict d) (k # k' # ks) val init_key_path =
     (let sub = (case map_of d k of None \<Rightarrow> Dict [] | Some t \<Rightarrow> t) in
      case add_step sub (k' # ks) val init_key_path of
        Inl e \<Rightarrow> Inl e
      | Inr (sub', w) \<Rightarrow> Inr (Dict (AList.update k sub' d), w))"

definition recursive_add ::
    "('k, 'a) tree \<Rightarrow> 'k path \<times> ('k, 'a) tree \<Rightarrow> bool \<Rightarrow>
     ('k, ('k, 'a) tree) error + ('k, 'a) outcome" where
  "recursive_add d key_path in_place =
     (let new_d = (if \<not> in_place then deepcopy d else d);
          (path, val) = key_path
      in case add_step new_d (keys_of path) val path of
           Inl e \<Rightarrow> Inl e
         | Inr (new_d', w) \<Rightarrow> Inr (finish in_place d new_d' w))"


section \<open>\<^verbatim>\<open>recursive_build\<close> and \<^verbatim>\<open>recursive_merge_dicts\<close>\<close>

text \<open>
  The first loop of \<^verbatim>\<open>recursive_build\<close> keeps the first value of every key path in the
  dictionary \<^verbatim>\<open>unique_key_paths\<close>, whose keys are the key paths themselves: the test
  \<^verbatim>\<open>key_path not in unique_key_paths\<close> hashes the key path and raises \<^verbatim>\<open>TypeError\<close> for a
  list. The second loop adds the items of that dictionary in place to \<^verbatim>\<open>final_d\<close>.
\<close>

fun build_unique ::
    "('k path \<times> ('k, 'a) tree) list \<Rightarrow> ('k path \<times> ('k, 'a) tree) list \<Rightarrow>
     ('k, ('k, 'a) tree) warning list \<Rightarrow>
     ('k, ('k, 'a) tree) error + (('k path \<times> ('k, 'a) tree) list \<times> ('k, ('k, 'a) tree) warning list)" where
  "build_unique [] unique_key_paths w = Inr (unique_key_paths, w)"
| "build_unique ((key_path, val) # rest) unique_key_paths w =
     (if \<not> hashable key_path then Inl (TypeError Unhashable)
      else case map_of unique_key_paths key_path of
             None \<Rightarrow> build_unique rest (AList.update key_path val unique_key_paths) w
           | Some kept \<Rightarrow>
               build_unique rest unique_key_paths (w @ [Duplicate_key_path key_path kept]))"

fun add_all ::
    "('k path \<times> ('k, 'a) tree) list \<Rightarrow> ('k, 'a) tree \<Rightarrow> ('k, ('k, 'a) tree) warning list \<Rightarrow>
     ('k, ('k, 'a) tree) error + (('k, 'a) tree \<times> ('k, ('k, 'a) tree) warning list)" where
  "add_all [] final_d w = Inr (final_d, w)"
| "add_all (key_path # rest) final_d w =
     (case recursive_add final_d key_path True of
        Inl e \<Rightarrow> Inl e
      | Inr r \<Rightarrow> add_all rest (argument r) (w @ warnings r))"

definition recursive_build ::
    "('k path \<times> ('k, 'a) tree) list \<Rightarrow>
     ('k, ('k, 'a) tree) error + (('k, 'a) tree \<times> ('k, ('k, 'a) tree) warning list)" where
  "recursive_build key_paths =
     (case build_unique key_paths [] [] of
        Inl e \<Rightarrow> Inl e
      | Inr (unique_key_paths, w) \<Rightarrow> add_all unique_key_paths (Dict []) w)"

text \<open>
  \<^verbatim>\<open>recursive_merge_dicts\<close> chains the key paths of all the dictionaries, keeps the first
  pair of every key path (\<^verbatim>\<open>unique_key_paths\<close> is a list here, searched with \<^verbatim>\<open>in\<close>, so
  lists are accepted) and adds the pairs in place to \<^verbatim>\<open>merged_d\<close>. \<^verbatim>\<open>merged_d\<close> is a
  \<^verbatim>\<open>defaultdict\<close>, a dictionary for \<^verbatim>\<open>isinstance\<close>; its default factory never runs, since
  \<^verbatim>\<open>recursive_add\<close> tests membership before it reads a key.
\<close>

fun chain_key_paths ::
    "('k, 'a) tree list \<Rightarrow> ('k, ('k, 'a) tree) error + ('k path \<times> ('k, 'a) tree) list" where
  "chain_key_paths [] = Inr []"
| "chain_key_paths (d # dicts) =
     (case recursive_iter_key_paths d of
        Inl e \<Rightarrow> Inl e
      | Inr xs \<Rightarrow> (case chain_key_paths dicts of Inl e \<Rightarrow> Inl e | Inr ys \<Rightarrow> Inr (xs @ ys)))"

fun merge_unique ::
    "('k path \<times> 'v) list \<Rightarrow> 'k path list \<Rightarrow> ('k path \<times> 'v) list \<Rightarrow> ('k path \<times> 'v) list" where
  "merge_unique [] unique_key_paths new_key_paths_and_values = new_key_paths_and_values"
| "merge_unique ((key_path, val) # rest) unique_key_paths new_key_paths_and_values =
     (if key_path \<notin> set unique_key_paths
      then merge_unique rest (unique_key_paths @ [key_path])
             (new_key_paths_and_values @ [(key_path, val)])
      else merge_unique rest unique_key_paths new_key_paths_and_values)"

definition recursive_merge_dicts ::
    "('k, 'a) tree list \<Rightarrow> ('k, ('k, 'a) tree) error + (('k, 'a) tree \<times> ('k, ('k, 'a) tree) warning list)" where
  "recursive_merge_dicts dicts =
     (case chain_key_paths dicts of
        Inl e \<Rightarrow> Inl e
      | Inr key_paths_and_values \<Rightarrow>
          add_all (merge_unique key_paths_and_values [] []) (Dict []) [])"


section \<open>\<^verbatim>\<open>recursive_replace\<close> and \<^verbatim>\<open>recursive_remove\<close>\<close>

text \<open>
  \<^verbatim>\<open>recursive_step(d, key_path, key_path_list)\<close> of \<^verbatim>\<open>recursive_replace\<close>; \<^verbatim>\<open>key_path\<close> is
  the pair of the remaining keys and the new value. The step has no \<^verbatim>\<open>isinstance\<close> test:
  with one key left it reads \<^verbatim>\<open>d[key]\<close>, turns a \<^verbatim>\<open>KeyError\<close> into its own and lets any
  other exception through, then assigns \<^verbatim>\<open>d[key] = value\<close>; with more keys left (or
  none: then \<^verbatim>\<open>key_path[0][0]\<close> raises \<^verbatim>\<open>IndexError\<close>) it tests \<^verbatim>\<open>key in d\<close> and calls
  itself on \<^verbatim>\<open>d[key]\<close>. On a dictionary these are the dictionary's operations, on a
  leaf they are the leaf's: the step goes on inside a leaf that is a container.
\<close>

fun replace_step ::
    "('k, 'a, ('k, 'a) tree) leaf_ops \<Rightarrow> ('k, 'a) tree \<Rightarrow> 'k list \<Rightarrow> ('k, 'a) tree \<Rightarrow> 'k list \<Rightarrow>
     ('k, ('k, 'a) tree) error + ('k, 'a) tree" where
  "replace_step ops d [] val key_path_list = Inl IndexError"
| "replace_step ops (Leaf x) [k] val key_path_list =
     (case leaf_getitem ops x k of
        Inl (KeyError p) \<Rightarrow> Inl (KeyError (key_path_list @ [k]))
      | Inl e \<Rightarrow> Inl e
      | Inr old \<Rightarrow>
          (case leaf_setitem ops x k val of Inl e \<Rightarrow> Inl e | Inr x' \<Rightarrow> Inr (Leaf x')))"
| "replace_step ops (Dict d) [k] val key_path_list =
     (case map_of d k of
        None \<Rightarrow> Inl (KeyError (key_path_list @ [k]))
      | Some old \<Rightarrow> Inr (Dict (AList.update k val d)))"
| "replace_step ops (Leaf x) (k # k' # ks) val key_path_list =
     (case leaf_contains ops x k of
        Inl e \<Rightarrow> Inl e
      | Inr present \<Rightarrow>
          if \<not> present then Inr (Leaf x)
          else (case leaf_getitem ops x k of
                  Inl e \<Rightarrow> Inl e
                | Inr sub \<Rightarrow>
                    (case replace_step ops sub (k' # ks) val (key_path_list @ [k]) of
                       Inl e \<Rightarrow> Inl e
                     | Inr sub' \<Rightarrow> Inr (Leaf (leaf_updated ops x k sub')))))"
| "replace_step ops (Dict d) (k # k' # ks) val key_path_list =
     (case map_of d k of
        None \<Rightarrow> Inr (Dict d)
      | Some sub \<Rightarrow>
          (case replace_step ops sub (k' # ks) val (key_path_list @ [k]) of
             Inl e \<Rightarrow> Inl e
           | Inr sub' \<Rightarrow> Inr (Dict (AList.update k sub' d))))"

definition recursive_replace ::
    "('k, 'a, ('k, 'a) tree) leaf_ops \<Rightarrow> ('k, 'a) tree \<Rightarrow> 'k path \<times> ('k, 'a) tree \<Rightarrow> bool \<Rightarrow>
     ('k, ('k, 'a) tree) error + ('k, 'a) outcome" where
  "recursive_replace ops d key_path in_place =
     (let new_d = (if \<not> in_place then deepcopy d else d) in
      case replace_step ops new_d (keys_of (fst key_path)) (snd key_path) [] of
        Inl e \<Rightarrow> Inl e
      | Inr new_d' \<Rightarrow> Inr (finish in_place d new_d' []))"

text \<open>
  The leaves of the module's examples are numbers: not iterable, not subscriptable.
  \<open>not_a_container ops x\<close> says so of one leaf.
\<close>

definition number_leaf :: "('k, 'a, 'v) leaf_ops" where
  "number_leaf =
     \<lparr>leaf_contains = (\<lambda>x k. Inl (TypeError Not_iterable)),
      leaf_getitem = (\<lambda>x k. Inl (TypeError Not_subscriptable)),
      leaf_setitem = (\<lambda>x k v. Inl (TypeError No_item_assignment)),
      leaf_updated = (\<lambda>x k v. x)\<rparr>"

definition not_a_container :: "('k, 'a, 'v) leaf_ops \<Rightarrow> 'a \<Rightarrow> bool" where
  "not_a_container ops x =
     (\<forall>k. leaf_contains ops x k = Inl (TypeError Not_iterable) \<and>
          leaf_getitem ops x k = Inl (TypeError Not_subscriptable))"

text \<open>
  Leaves that are numbers or Python lists, with numbers as keys. A list holds values
  of any kind; \<^verbatim>\<open>k in xs\<close> compares the key with the elements, \<^verbatim>\<open>xs[k]\<close> counts a
  negative index from the end and raises \<^verbatim>\<open>IndexError\<close> out of range.
\<close>

datatype pyleaf = PInt int | PList "(int, pyleaf) tree list"

definition py_index :: "'x list \<Rightarrow> int \<Rightarrow> nat option" where
  "py_index xs k =
     (let n = int (length xs); i = (if k < 0 then n + k else k)
      in if 0 \<le> i \<and> i < n then Some (nat i) else None)"

fun py_contains :: "pyleaf \<Rightarrow> int \<Rightarrow> (int, (int, pyleaf) tree) error + bool" where
  "py_contains (PInt n) k = Inl (TypeError Not_iterable)"
| "py_contains (PList xs) k = Inr (Leaf (PInt k) \<in> set xs)"

fun py_getitem :: "pyleaf \<Rightarrow> int \<Rightarrow> (int, (int, pyleaf) tree) error + (int, pyleaf) tree" where
  "py_getitem (PInt n) k = Inl (TypeError Not_subscriptable)"
| "py_getitem (PList xs) k =
     (case py_index xs k of None \<Rightarrow> Inl IndexError | Some i \<Rightarrow> Inr (xs ! i))"

fun py_setitem ::
    "pyleaf \<Rightarrow> int \<Rightarrow> (int, pyleaf) tree \<Rightarrow> (int, (int, pyleaf) tree) error + pyleaf" where
  "py_setitem (PInt n) k v = Inl (TypeError No_item_assignment)"
| "py_setitem (PList xs) k v =
     (case py_index xs k of None \<Rightarrow> Inl IndexError | Some i \<Rightarrow> Inr (PList (xs[i := v])))"

fun py_updated :: "pyleaf \<Rightarrow> int \<Rightarrow> (int, pyleaf) tree \<Rightarrow> pyleaf" where
  "py_updated (PInt n) k v = PInt n"
| "py_updated (PList xs) k v =
     (case py_index xs k of None \<Rightarrow> PList xs | Some i \<Rightarrow> PList (xs[i := v]))"

definition python_leaf :: "(int, pyleaf, (int, pyleaf) tree) leaf_ops" where
  "python_leaf =
     \<lparr>leaf_contains = py_contains, leaf_getitem = py_getitem,
      leaf_setitem = py_setitem, leaf_updated = py_updated\<rparr>"

text \<open>
  The step of \<^verbatim>\<open>recursive_remove\<close> is the same walk inside \<^verbatim>\<open>if isinstance(d, dict)\<close>,
  so on a leaf it does nothing. At the last key it compares the value found with the
  value given (\<^verbatim>\<open>val != key_path[1]\<close>) and raises \<^verbatim>\<open>ValueError\<close> with the path, the
  value given and the value found, or deletes the key.
\<close>

fun remove_step ::
    "('k, 'a) tree \<Rightarrow> 'k list \<Rightarrow> ('k, 'a) tree \<Rightarrow> 'k list \<Rightarrow> ('k, ('k, 'a) tree) error + ('k, 'a) tree" where
  "remove_step (Leaf x) key_path val key_path_list = Inr (Leaf x)"
| "remove_step (Dict d) [] val key_path_list = Inl IndexError"
| "remove_step (Dict d) [k] val key_path_list =
     (case map_of d k of
        None \<Rightarrow> Inl (KeyError (key_path_list @ [k]))
      | Some found \<Rightarrow>
          if \<not> py_eq found val then Inl (ValueError (key_path_list @ [k]) val found)
          else Inr (Dict (AList.delete k d)))"
| "remove_step (Dict d) (k # k' # ks) val key_path_list =
     (case map_of d k of
        None \<Rightarrow> Inr (Dict d)
      | Some sub \<Rightarrow>
          (case remove_step sub (k' # ks) val (key_path_list @ [k]) of
             Inl e \<Rightarrow> Inl e
           | Inr sub' \<Rightarrow> Inr (Dict (AList.update k sub' d))))"

definition recursive_remove ::
    "('k, 'a) tree \<Rightarrow> 'k path \<times> ('k, 'a) tree \<Rightarrow> bool \<Rightarrow>
     ('k, ('k, 'a) tree) error + ('k, 'a) outcome" where
  "recursive_remove d key_path in_place =
     (let new_d = (if \<not> in_place then deepcopy d else d) in
      case remove_step new_d (keys_of (fst key_path)) (snd key_path) [] of
        Inl e \<Rightarrow> Inl e
      | Inr new_d' \<Rightarrow> Inr (finish in_place d new_d' []))"


section \<open>\<^verbatim>\<open>recursive_filter_dict\<close>\<close>

text \<open>
  What the caller's \<^verbatim>\<open>func\<close> does on a leaf: it raises, it returns \<^verbatim>\<open>True\<close> or \<^verbatim>\<open>False\<close>,
  or it returns something else. The two failures of the filter: the re-raised
  \<^verbatim>\<open>Exception\<close> ("Could not apply the function to v") and the \<^verbatim>\<open>TypeError\<close>
  ("'func' must return either True or False, but it returned r for v").
\<close>

datatype 'r func_result = Raises | Returns_bool bool | Returns_other 'r

datatype ('a, 'r) func_error = Exception_could_not_apply 'a | TypeError_must_return_bool 'r 'a

text \<open>
  \<^verbatim>\<open>sel_keys = keys if keys else d.keys()\<close>: \<^verbatim>\<open>None\<close> and an empty collection select the
  keys of the current dictionary (a live view of it).
\<close>

fun in_sel_keys :: "'k \<Rightarrow> 'k list option \<Rightarrow> ('k \<times> 'v) list \<Rightarrow> bool" where
  "in_sel_keys k None d = (k \<in> fst ` set d)"
| "in_sel_keys k (Some []) d = (k \<in> fst ` set d)"
| "in_sel_keys k (Some (x # xs)) d = (k \<in> set (x # xs))"

text \<open>
  \<^verbatim>\<open>recursive_step(d, func, keys, permissive)\<close> loops over \<^verbatim>\<open>list(d.items())\<close>, a snapshot
  taken before the loop, and deletes from \<^verbatim>\<open>d\<close> itself: \<open>filter_items\<close> takes the rest of
  the snapshot and the current dictionary. A nested dictionary is filtered in place
  by the recursive call and stays under its key.
\<close>

fun filter_step ::
    "('k \<times> ('k, 'a) tree) list \<Rightarrow> ('a \<Rightarrow> 'r func_result) \<Rightarrow> 'k list option \<Rightarrow> bool \<Rightarrow>
     ('a, 'r) func_error + ('k \<times> ('k, 'a) tree) list"
  and filter_items ::
    "('k \<times> ('k, 'a) tree) list \<Rightarrow> ('k \<times> ('k, 'a) tree) list \<Rightarrow> ('a \<Rightarrow> 'r func_result) \<Rightarrow>
     'k list option \<Rightarrow> bool \<Rightarrow> ('a, 'r) func_error + ('k \<times> ('k, 'a) tree) list"
where
  "filter_step d func keys permissive = filter_items d d func keys permissive"
| "filter_items [] d func keys permissive = Inr d"
| "filter_items ((k, Dict v) # rest) d func keys permissive =
     (case filter_step v func keys permissive of
        Inl e \<Rightarrow> Inl e
      | Inr v' \<Rightarrow> filter_items rest (AList.update k (Dict v') d) func keys permissive)"
| "filter_items ((k, Leaf v) # rest) d func keys permissive =
     (if in_sel_keys k keys d then
        (case func v of
           Raises \<Rightarrow>
             if \<not> permissive then Inl (Exception_could_not_apply v)
             else filter_items rest d func keys permissive
         | Returns_bool return_val \<Rightarrow>
             if \<not> return_val then filter_items rest (AList.delete k d) func keys permissive
             else filter_items rest d func keys permissive
         | Returns_other r \<Rightarrow> Inl (TypeError_must_return_bool r v))
      else filter_items rest d func keys permissive)"

definition recursive_filter_dict ::
    "('k, 'a) tree \<Rightarrow> ('a \<Rightarrow> 'r func_result) \<Rightarrow> 'k list option \<Rightarrow> bool \<Rightarrow> bool \<Rightarrow>
     ('a, 'r) func_error + ('k, 'a) outcome" where
  "recursive_filter_dict d func keys in_place permissive =
     (let new_d = (if \<not> in_place then deepcopy d else d) in
      case (case new_d of
              Leaf x \<Rightarrow> Inr (Leaf x)
            | Dict items \<Rightarrow>
                (case filter_step items func keys permissive of
                   Inl e \<Rightarrow> Inl e
                 | Inr items' \<Rightarrow> Inr (Dict items'))) of
        Inl e \<Rightarrow> Inl e
      | Inr new_d' \<Rightarrow> Inr (finish in_place d new_d' []))"


section \<open>Vocabulary of the specification\<close>

text \<open>
  The node a key path leads to, when every key on the way is a key of a dictionary;
  and the tree with the node at a key path replaced.
\<close>

fun walk :: "('k, 'a) tree \<Rightarrow> 'k list \<Rightarrow> ('k, 'a) tree option" where
  "walk t [] = Some t"
| "walk (Leaf x) (k # ks) = None"
| "walk (Dict d) (k # ks) = (case map_of d k of None \<Rightarrow> None | Some t \<Rightarrow> walk t ks)"

fun update_at :: "('k, 'a) tree \<Rightarrow> 'k list \<Rightarrow> ('k, 'a) tree \<Rightarrow> ('k, 'a) tree" where
  "update_at t [] new = new"
| "update_at (Leaf x) (k # ks) new = Leaf x"
| "update_at (Dict d) (k # ks) new =
     (case map_of d k of
        None \<Rightarrow> Dict d
      | Some t \<Rightarrow> Dict (AList.update k (update_at t ks new) d))"

text \<open>A key path with one more key in front, and a list of pairs with all paths so extended.\<close>

fun cons_path :: "'k \<Rightarrow> 'k path \<Rightarrow> 'k path" where
  "cons_path k (PyList ks) = PyList (k # ks)"
| "cons_path k (PyTuple ks) = PyTuple (k # ks)"

definition under ::
    "'k \<Rightarrow> ('k path \<times> ('k, 'a) tree) list \<Rightarrow> ('k path \<times> ('k, 'a) tree) list" where
  "under k es = map (\<lambda>(pth, v). (cons_path k pth, v)) es"


text \<open>
  The round trip of the specification: \<^verbatim>\<open>recursive_build\<close> on what
  \<^verbatim>\<open>recursive_iter_key_paths\<close> yields. \<open>as_tuples\<close> is the conversion a caller would
  have to make by hand, \<^verbatim>\<open>(tuple(key_path), value)\<close> for every pair.
\<close>

definition build_of_iter ::
    "('k, 'a) tree \<Rightarrow> ('k, ('k, 'a) tree) error + (('k, 'a) tree \<times> ('k, ('k, 'a) tree) warning list)" where
  "build_of_iter d =
     (case recursive_iter_key_paths d of
        Inl e \<Rightarrow> Inl e
      | Inr key_paths \<Rightarrow> recursive_build key_paths)"

definition as_tuples ::
    "('k path \<times> ('k, 'a) tree) list \<Rightarrow> ('k path \<times> ('k, 'a) tree) list" where
  "as_tuples es = map (\<lambda>(pth, v). (PyTuple (keys_of pth), v)) es"


text \<open>
  The filter as the specification words it. A key is selected when no keys are given or
  it is one of the keys given. A nested dictionary is kept and filtered itself; a leaf
  is dropped, with its key, exactly when its key is selected and \<^verbatim>\<open>func\<close> returns
  \<^verbatim>\<open>False\<close> for it. \<open>selected_leaves\<close> lists the leaves \<^verbatim>\<open>func\<close> is applied to, in the
  order of the traversal, and \<open>first_error\<close> is the failure the first offending leaf
  causes.
\<close>

fun selected :: "'k \<Rightarrow> 'k list option \<Rightarrow> bool" where
  "selected k None = True"
| "selected k (Some []) = True"
| "selected k (Some (x # xs)) = (k \<in> set (x # xs))"

fun filter_spec ::
    "('a \<Rightarrow> 'r func_result) \<Rightarrow> 'k list option \<Rightarrow> ('k \<times> ('k, 'a) tree) list \<Rightarrow>
     ('k \<times> ('k, 'a) tree) list" where
  "filter_spec func keys [] = []"
| "filter_spec func keys ((k, Leaf x) # rest) =
     (if selected k keys \<and> func x = Returns_bool False then filter_spec func keys rest
      else (k, Leaf x) # filter_spec func keys rest)"
| "filter_spec func keys ((k, Dict v) # rest) =
     (k, Dict (filter_spec func keys v)) # filter_spec func keys rest"

fun selected_leaves :: "'k list option \<Rightarrow> ('k \<times> ('k, 'a) tree) list \<Rightarrow> 'a list" where
  "selected_leaves keys [] = []"
| "selected_leaves keys ((k, Leaf x) # rest) =
     (if selected k keys then x # selected_leaves keys rest else selected_leaves keys rest)"
| "selected_leaves keys ((k, Dict v) # rest) =
     selected_leaves keys v @ selected_leaves keys rest"

fun first_error :: "('a \<Rightarrow> 'r func_result) \<Rightarrow> bool \<Rightarrow> 'a list \<Rightarrow> ('a, 'r) func_error option" where
  "first_error func permissive [] = None"
| "first_error func permissive (x # xs) =
     (case func x of
        Raises \<Rightarrow> if \<not> permissive then Some (Exception_could_not_apply x)
                  else first_error func permissive xs
      | Returns_bool b \<Rightarrow> first_error func permissive xs
      | Returns_other r \<Rightarrow> Some (TypeError_must_return_bool r x))"


section \<open>Dictionaries as objects in a store\<close>

text \<open>
  For the properties about sharing and about what a call leaves unchanged, dictionaries are
  objects with an identity. The store is the list of all dictionary objects, the
  address of an object is its index, and creating a dictionary appends to the store. A
  value is a leaf or a reference to a dictionary object; the items of an object hold
  values, so two dictionaries can hold the same object. A reference of a Python
  program always leads to an object: the functions below are applied to references
  into the store only.
\<close>

datatype 'a pyval = Atom 'a | Ref nat

type_synonym ('k, 'a) store = "('k \<times> 'a pyval) list list"

text \<open>
  The nested dictionary a value stands for. Recursion through the store is bounded by
  a depth (Python bounds it by its recursion limit); on a store that holds finite trees
  a large enough bound reads every tree.
\<close>

fun tree_of :: "nat \<Rightarrow> ('k, 'a) store \<Rightarrow> 'a pyval \<Rightarrow> ('k, 'a) tree option"
  and items_of ::
    "nat \<Rightarrow> ('k, 'a) store \<Rightarrow> ('k \<times> 'a pyval) list \<Rightarrow> ('k \<times> ('k, 'a) tree) list option"
where
  "tree_of n h (Atom x) = Some (Leaf x)"
| "tree_of 0 h (Ref a) = None"
| "tree_of (Suc n) h (Ref a) =
     (if a < length h then map_option Dict (items_of n h (h ! a)) else None)"
| "items_of n h [] = Some []"
| "items_of n h ((k, v) # rest) =
     (case tree_of n h v of
        None \<Rightarrow> None
      | Some t \<Rightarrow> (case items_of n h rest of None \<Rightarrow> None | Some ts \<Rightarrow> Some ((k, t) # ts)))"

text \<open>
  \<^verbatim>\<open>copy.deepcopy\<close> of a nested dictionary: a new object for every dictionary, the leaves
  as they are. (The library also keeps a memo, so that an object that occurs twice is
  copied once; in a tree no object occurs twice. It creates the copy of a dictionary
  before the copies of its values; the addresses are identities only, so the order in
  which the new objects are created does not matter. On an input in which an object
  does occur twice the library's copy has one new object where this one has two; both
  are made of new objects only.)
\<close>

fun s_deepcopy :: "nat \<Rightarrow> ('k, 'a) store \<Rightarrow> 'a pyval \<Rightarrow> ('a pyval \<times> ('k, 'a) store) option"
  and s_deepcopy_items ::
    "nat \<Rightarrow> ('k, 'a) store \<Rightarrow> ('k \<times> 'a pyval) list \<Rightarrow>
     (('k \<times> 'a pyval) list \<times> ('k, 'a) store) option"
where
  "s_deepcopy n h (Atom x) = Some (Atom x, h)"
| "s_deepcopy 0 h (Ref a) = None"
| "s_deepcopy (Suc n) h (Ref a) =
     (case s_deepcopy_items n h (h ! a) of
        None \<Rightarrow> None
      | Some (items, h') \<Rightarrow> Some (Ref (length h'), h' @ [items]))"
| "s_deepcopy_items n h [] = Some ([], h)"
| "s_deepcopy_items n h ((k, v) # rest) =
     (case s_deepcopy n h v of
        None \<Rightarrow> None
      | Some (v', h1) \<Rightarrow>
          (case s_deepcopy_items n h1 rest of
             None \<Rightarrow> None
           | Some (rest', h2) \<Rightarrow> Some ((k, v') # rest', h2)))"

text \<open>
  \<^verbatim>\<open>new_d = copy.deepcopy(d)\<close> or \<^verbatim>\<open>new_d = d\<close>, the start of every function with an
  \<^verbatim>\<open>in_place\<close> flag; and its end, \<^verbatim>\<open>return new_d\<close> when not in place.
\<close>

definition s_new_d ::
    "nat \<Rightarrow> ('k, 'a) store \<Rightarrow> 'a pyval \<Rightarrow> bool \<Rightarrow> ('a pyval \<times> ('k, 'a) store) option" where
  "s_new_d fuel h d in_place = (if \<not> in_place then s_deepcopy fuel h d else Some (d, h))"

definition s_return :: "bool \<Rightarrow> 'a pyval \<Rightarrow> 'a pyval option" where
  "s_return in_place new_d = (if \<not> in_place then Some new_d else None)"

text \<open>The generator of \<^verbatim>\<open>recursive_iter_key_paths\<close> on a dictionary object.\<close>

fun s_iter_step ::
    "nat \<Rightarrow> ('k, 'a) store \<Rightarrow> nat \<Rightarrow> 'k list \<Rightarrow> ('k path \<times> 'a pyval) list option"
  and s_iter_items ::
    "nat \<Rightarrow> ('k, 'a) store \<Rightarrow> ('k \<times> 'a pyval) list \<Rightarrow> 'k list \<Rightarrow>
     ('k path \<times> 'a pyval) list option"
where
  "s_iter_step 0 h d key_path = None"
| "s_iter_step (Suc n) h d key_path = s_iter_items n h (h ! d) key_path"
| "s_iter_items n h [] key_path = Some []"
| "s_iter_items n h ((key, Atom x) # rest) key_path =
     (case s_iter_items n h rest key_path of
        None \<Rightarrow> None
      | Some ys \<Rightarrow> Some ((PyList (key_path @ [key]), Atom x) # ys))"
| "s_iter_items n h ((key, Ref a) # rest) key_path =
     (case s_iter_step n h a (key_path @ [key]) of
        None \<Rightarrow> None
      | Some xs \<Rightarrow>
          (case s_iter_items n h rest key_path of
             None \<Rightarrow> None
           | Some ys \<Rightarrow> Some (xs @ (PyList (key_path @ [key]), Ref a) # ys)))"

text \<open>
  The step of \<^verbatim>\<open>recursive_add\<close> on the store: \<^verbatim>\<open>d[key_path[0]] = value\<close> writes the
  object \<^verbatim>\<open>d\<close>, \<^verbatim>\<open>d[key_path[0]] = {}\<close> creates an object and writes \<^verbatim>\<open>d\<close>, and the
  recursive call goes to the object under the key. The result is the exception raised,
  if any, the store and the warnings.
\<close>

fun s_add_step ::
    "('k, 'a) store \<Rightarrow> 'a pyval \<Rightarrow> 'k list \<Rightarrow> 'a pyval \<Rightarrow> 'k path \<Rightarrow>
     ('k, 'a pyval) error option \<times> ('k, 'a) store \<times> ('k, 'a pyval) warning list" where
  "s_add_step h (Atom x) key_path val init_key_path = (None, h, [Not_added val init_key_path])"
| "s_add_step h (Ref d) [] val init_key_path = (Some IndexError, h, [])"
| "s_add_step h (Ref d) [k] val init_key_path = (None, h[d := AList.update k val (h ! d)], [])"
| "s_add_step h (Ref d) (k # k' # ks) val init_key_path =
     (case map_of (h ! d) k of
        None \<Rightarrow>
          s_add_step ((h @ [[]])[d := AList.update k (Ref (length h)) (h ! d)])
            (Ref (length h)) (k' # ks) val init_key_path
      | Some sub \<Rightarrow> s_add_step h sub (k' # ks) val init_key_path)"

definition s_recursive_add ::
    "nat \<Rightarrow> ('k, 'a) store \<Rightarrow> 'a pyval \<Rightarrow> 'k path \<times> 'a pyval \<Rightarrow> bool \<Rightarrow>
     ((('k, 'a pyval) error + 'a pyval option) \<times> ('k, 'a) store \<times>
      ('k, 'a pyval) warning list) option" where
  "s_recursive_add fuel h d key_path in_place =
     (case s_new_d fuel h d in_place of
        None \<Rightarrow> None
      | Some (new_d, h1) \<Rightarrow>
          (case s_add_step h1 new_d (keys_of (fst key_path)) (snd key_path) (fst key_path) of
             (Some e, h2, w) \<Rightarrow> Some (Inl e, h2, w)
           | (None, h2, w) \<Rightarrow> Some (Inr (s_return in_place new_d), h2, w)))"

text \<open>
  \<^verbatim>\<open>recursive_merge_dicts\<close> on the store. The values paired with the key paths are the
  values of the input dictionaries themselves, references included; \<^verbatim>\<open>merged_d\<close> is a
  new object, and \<^verbatim>\<open>dict(merged_d)\<close> at the end is one more object with the same items.
\<close>

fun s_chain_key_paths ::
    "nat \<Rightarrow> ('k, 'a) store \<Rightarrow> 'a pyval list \<Rightarrow>
     (('k, 'a pyval) error + ('k path \<times> 'a pyval) list) option" where
  "s_chain_key_paths n h [] = Some (Inr [])"
| "s_chain_key_paths n h (Atom x # dicts) = Some (Inl AttributeError)"
| "s_chain_key_paths n h (Ref d # dicts) =
     (case s_iter_step n h d [] of
        None \<Rightarrow> None
      | Some xs \<Rightarrow>
          (case s_chain_key_paths n h dicts of
             None \<Rightarrow> None
           | Some (Inl e) \<Rightarrow> Some (Inl e)
           | Some (Inr ys) \<Rightarrow> Some (Inr (xs @ ys))))"

fun s_add_all ::
    "nat \<Rightarrow> ('k path \<times> 'a pyval) list \<Rightarrow> ('k, 'a) store \<Rightarrow> 'a pyval \<Rightarrow>
     ('k, 'a pyval) warning list \<Rightarrow>
     (('k, 'a pyval) error option \<times> ('k, 'a) store \<times> ('k, 'a pyval) warning list) option"
  where
  "s_add_all fuel [] h merged_d w = Some (None, h, w)"
| "s_add_all fuel (key_path # rest) h merged_d w =
     (case s_recursive_add fuel h merged_d key_path True of
        None \<Rightarrow> None
      | Some (Inl e, h', w') \<Rightarrow> Some (Some e, h', w @ w')
      | Some (Inr r, h', w') \<Rightarrow> s_add_all fuel rest h' merged_d (w @ w'))"

definition s_recursive_merge_dicts ::
    "nat \<Rightarrow> ('k, 'a) store \<Rightarrow> 'a pyval list \<Rightarrow>
     ((('k, 'a pyval) error + 'a pyval) \<times> ('k, 'a) store \<times> ('k, 'a pyval) warning list) option"
  where
  "s_recursive_merge_dicts fuel h dicts =
     (let merged_d = length h; h0 = h @ [[]] in
      case s_chain_key_paths fuel h0 dicts of
        None \<Rightarrow> None
      | Some (Inl e) \<Rightarrow> Some (Inl e, h0, [])
      | Some (Inr key_paths_and_values) \<Rightarrow>
          (case s_add_all fuel (merge_unique key_paths_and_values [] []) h0 (Ref merged_d) [] of
             None \<Rightarrow> None
           | Some (Some e, h1, w) \<Rightarrow> Some (Inl e, h1, w)
           | Some (None, h1, w) \<Rightarrow> Some (Inr (Ref (length h1)), h1 @ [h1 ! merged_d], w)))"

text \<open>
  The store of the merge example: \<^verbatim>\<open>{1: 2, 3: {4: 5}}\<close> is the object 1 (its inner
  dictionary the object 0) and \<^verbatim>\<open>{3: {17: 18}}\<close> the object 3 (its inner dictionary
  the object 2).
\<close>

definition merge_store :: "(int, int) store" where
  "merge_store = [[(4, Atom 5)], [(1, Atom 2), (3, Ref 0)], [(17, Atom 18)], [(3, Ref 2)]]"

text \<open>
  The steps of \<^verbatim>\<open>recursive_replace\<close> and \<^verbatim>\<open>recursive_remove\<close> on the store. A leaf
  is held by value and a leaf that is a container holds leaves: \<open>s_replace_leaf\<close> is
  the step of \<^verbatim>\<open>recursive_replace\<close> inside a leaf, with the leaf afterwards as its
  result. The step on a dictionary object writes the value it went into back under its
  key: the same reference for a dictionary, the leaf as it now is for a leaf.
\<close>

record ('k, 'a) s_leaf_ops =
  s_contains :: "'a \<Rightarrow> 'k \<Rightarrow> ('k, 'a pyval) error + bool"
  s_getitem :: "'a \<Rightarrow> 'k \<Rightarrow> ('k, 'a pyval) error + 'a"
  s_setitem :: "'a \<Rightarrow> 'k \<Rightarrow> 'a pyval \<Rightarrow> ('k, 'a pyval) error + 'a"
  s_updated :: "'a \<Rightarrow> 'k \<Rightarrow> 'a \<Rightarrow> 'a"

definition s_number_leaf :: "('k, 'a) s_leaf_ops" where
  "s_number_leaf =
     \<lparr>s_contains = (\<lambda>x k. Inl (TypeError Not_iterable)),
      s_getitem = (\<lambda>x k. Inl (TypeError Not_subscriptable)),
      s_setitem = (\<lambda>x k v. Inl (TypeError No_item_assignment)),
      s_updated = (\<lambda>x k v. x)\<rparr>"

fun s_replace_leaf ::
    "('k, 'a) s_leaf_ops \<Rightarrow> 'a \<Rightarrow> 'k list \<Rightarrow> 'a pyval \<Rightarrow> 'k list \<Rightarrow> ('k, 'a pyval) error + 'a"
  where
  "s_replace_leaf ops x [] val key_path_list = Inl IndexError"
| "s_replace_leaf ops x [k] val key_path_list =
     (case s_getitem ops x k of
        Inl (KeyError p) \<Rightarrow> Inl (KeyError (key_path_list @ [k]))
      | Inl e \<Rightarrow> Inl e
      | Inr old \<Rightarrow> s_setitem ops x k val)"
| "s_replace_leaf ops x (k # k' # ks) val key_path_list =
     (case s_contains ops x k of
        Inl e \<Rightarrow> Inl e
      | Inr present \<Rightarrow>
          if \<not> present then Inr x
          else (case s_getitem ops x k of
                  Inl e \<Rightarrow> Inl e
                | Inr sub \<Rightarrow>
                    (case s_replace_leaf ops sub (k' # ks) val (key_path_list @ [k]) of
                       Inl e \<Rightarrow> Inl e
                     | Inr sub' \<Rightarrow> Inr (s_updated ops x k sub'))))"

fun s_replace_step ::
    "('k, 'a) s_leaf_ops \<Rightarrow> ('k, 'a) store \<Rightarrow> 'a pyval \<Rightarrow> 'k list \<Rightarrow> 'a pyval \<Rightarrow> 'k list \<Rightarrow>
     ('k, 'a pyval) error option \<times> ('k, 'a) store \<times> 'a pyval" where
  "s_replace_step ops h (Atom x) key_path val key_path_list =
     (case s_replace_leaf ops x key_path val key_path_list of
        Inl e \<Rightarrow> (Some e, h, Atom x)
      | Inr x' \<Rightarrow> (None, h, Atom x'))"
| "s_replace_step ops h (Ref d) [] val key_path_list = (Some IndexError, h, Ref d)"
| "s_replace_step ops h (Ref d) [k] val key_path_list =
     (case map_of (h ! d) k of
        None \<Rightarrow> (Some (KeyError (key_path_list @ [k])), h, Ref d)
      | Some old \<Rightarrow> (None, h[d := AList.update k val (h ! d)], Ref d))"
| "s_replace_step ops h (Ref d) (k # k' # ks) val key_path_list =
     (case map_of (h ! d) k of
        None \<Rightarrow> (None, h, Ref d)
      | Some sub \<Rightarrow>
          (case s_replace_step ops h sub (k' # ks) val (key_path_list @ [k]) of
             (Some e, h', sub') \<Rightarrow> (Some e, h', Ref d)
           | (None, h', sub') \<Rightarrow> (None, h'[d := AList.update k sub' (h' ! d)], Ref d)))"

definition s_recursive_replace ::
    "('k, 'a) s_leaf_ops \<Rightarrow> nat \<Rightarrow> ('k, 'a) store \<Rightarrow> 'a pyval \<Rightarrow> 'k path \<times> 'a pyval \<Rightarrow> bool \<Rightarrow>
     ((('k, 'a pyval) error + 'a pyval option) \<times> ('k, 'a) store) option" where
  "s_recursive_replace ops fuel h d key_path in_place =
     (case s_new_d fuel h d in_place of
        None \<Rightarrow> None
      | Some (new_d, h1) \<Rightarrow>
          (case s_replace_step ops h1 new_d (keys_of (fst key_path)) (snd key_path) [] of
             (Some e, h2, new_d') \<Rightarrow> Some (Inl e, h2)
           | (None, h2, new_d') \<Rightarrow> Some (Inr (s_return in_place new_d'), h2)))"

text \<open>\<^verbatim>\<open>val != key_path[1]\<close> compares the two values as nested dictionaries.\<close>

definition s_py_eq :: "nat \<Rightarrow> ('k, 'a) store \<Rightarrow> 'a pyval \<Rightarrow> 'a pyval \<Rightarrow> bool option" where
  "s_py_eq n h v w =
     (case tree_of n h v of
        None \<Rightarrow> None
      | Some t \<Rightarrow> (case tree_of n h w of None \<Rightarrow> None | Some u \<Rightarrow> Some (py_eq t u)))"

fun s_remove_step ::
    "nat \<Rightarrow> ('k, 'a) store \<Rightarrow> 'a pyval \<Rightarrow> 'k list \<Rightarrow> 'a pyval \<Rightarrow> 'k list \<Rightarrow>
     (('k, 'a pyval) error option \<times> ('k, 'a) store) option" where
  "s_remove_step n h (Atom x) key_path val key_path_list = Some (None, h)"
| "s_remove_step n h (Ref d) [] val key_path_list = Some (Some IndexError, h)"
| "s_remove_step n h (Ref d) [k] val key_path_list =
     (case map_of (h ! d) k of
        None \<Rightarrow> Some (Some (KeyError (key_path_list @ [k])), h)
      | Some found \<Rightarrow>
          (case s_py_eq n h found val of
             None \<Rightarrow> None
           | Some equal \<Rightarrow>
               if \<not> equal then Some (Some (ValueError (key_path_list @ [k]) val found), h)
               else Some (None, h[d := AList.delete k (h ! d)])))"
| "s_remove_step n h (Ref d) (k # k' # ks) val key_path_list =
     (case map_of (h ! d) k of
        None \<Rightarrow> Some (None, h)
      | Some sub \<Rightarrow> s_remove_step n h sub (k' # ks) val (key_path_list @ [k]))"

definition s_recursive_remove ::
    "nat \<Rightarrow> ('k, 'a) store \<Rightarrow> 'a pyval \<Rightarrow> 'k path \<times> 'a pyval \<Rightarrow> bool \<Rightarrow>
     ((('k, 'a pyval) error + 'a pyval option) \<times> ('k, 'a) store) option" where
  "s_recursive_remove fuel h d key_path in_place =
     (case s_new_d fuel h d in_place of
        None \<Rightarrow> None
      | Some (new_d, h1) \<Rightarrow>
          (case s_remove_step fuel h1 new_d (keys_of (fst key_path)) (snd key_path) [] of
             None \<Rightarrow> None
           | Some (Some e, h2) \<Rightarrow> Some (Inl e, h2)
           | Some (None, h2) \<Rightarrow> Some (Inr (s_return in_place new_d), h2)))"

text \<open>
  The steps of \<^verbatim>\<open>recursive_filter_dict\<close> and \<^verbatim>\<open>recursive_map_dict\<close> on the store: the
  loop runs over the snapshot \<^verbatim>\<open>list(d.items())\<close> and writes the object \<^verbatim>\<open>d\<close>. The
  caller's \<^verbatim>\<open>func\<close> is a function of the leaf that touches no dictionary; for the map it
  returns a leaf or raises (\<open>None\<close>).
\<close>

fun s_filter_step ::
    "nat \<Rightarrow> ('k, 'a) store \<Rightarrow> nat \<Rightarrow> ('a \<Rightarrow> 'r func_result) \<Rightarrow> 'k list option \<Rightarrow> bool \<Rightarrow>
     (('a, 'r) func_error option \<times> ('k, 'a) store) option"
  and s_filter_items ::
    "nat \<Rightarrow> ('k, 'a) store \<Rightarrow> ('k \<times> 'a pyval) list \<Rightarrow> nat \<Rightarrow> ('a \<Rightarrow> 'r func_result) \<Rightarrow>
     'k list option \<Rightarrow> bool \<Rightarrow> (('a, 'r) func_error option \<times> ('k, 'a) store) option"
where
  "s_filter_step 0 h d func keys permissive = None"
| "s_filter_step (Suc n) h d func keys permissive =
     s_filter_items n h (h ! d) d func keys permissive"
| "s_filter_items n h [] d func keys permissive = Some (None, h)"
| "s_filter_items n h ((k, Ref v) # rest) d func keys permissive =
     (case s_filter_step n h v func keys permissive of
        None \<Rightarrow> None
      | Some (Some e, h') \<Rightarrow> Some (Some e, h')
      | Some (None, h') \<Rightarrow> s_filter_items n h' rest d func keys permissive)"
| "s_filter_items n h ((k, Atom v) # rest) d func keys permissive =
     (if in_sel_keys k keys (h ! d) then
        (case func v of
           Raises \<Rightarrow>
             if \<not> permissive then Some (Some (Exception_could_not_apply v), h)
             else s_filter_items n h rest d func keys permissive
         | Returns_bool return_val \<Rightarrow>
             if \<not> return_val
             then s_filter_items n (h[d := AList.delete k (h ! d)]) rest d func keys permissive
             else s_filter_items n h rest d func keys permissive
         | Returns_other r \<Rightarrow> Some (Some (TypeError_must_return_bool r v), h))
      else s_filter_items n h rest d func keys permissive)"

definition s_recursive_filter_dict ::
    "nat \<Rightarrow> ('k, 'a) store \<Rightarrow> 'a pyval \<Rightarrow> ('a \<Rightarrow> 'r func_result) \<Rightarrow> 'k list option \<Rightarrow> bool \<Rightarrow>
     bool \<Rightarrow> ((('a, 'r) func_error + 'a pyval option) \<times> ('k, 'a) store) option" where
  "s_recursive_filter_dict fuel h d func keys in_place permissive =
     (case s_new_d fuel h d in_place of
        None \<Rightarrow> None
      | Some (new_d, h1) \<Rightarrow>
          (case (case new_d of
                   Atom x \<Rightarrow> Some (None, h1)
                 | Ref a \<Rightarrow> s_filter_step fuel h1 a func keys permissive) of
             None \<Rightarrow> None
           | Some (Some e, h2) \<Rightarrow> Some (Inl e, h2)
           | Some (None, h2) \<Rightarrow> Some (Inr (s_return in_place new_d), h2)))"

fun s_map_step ::
    "nat \<Rightarrow> ('k, 'a) store \<Rightarrow> nat \<Rightarrow> ('a \<Rightarrow> 'a option) \<Rightarrow> 'k list option \<Rightarrow> bool \<Rightarrow>
     (('a, unit) func_error option \<times> ('k, 'a) store) option"
  and s_map_items ::
    "nat \<Rightarrow> ('k, 'a) store \<Rightarrow> ('k \<times> 'a pyval) list \<Rightarrow> nat \<Rightarrow> ('a \<Rightarrow> 'a option) \<Rightarrow>
     'k list option \<Rightarrow> bool \<Rightarrow> (('a, unit) func_error option \<times> ('k, 'a) store) option"
where
  "s_map_step 0 h d func keys permissive = None"
| "s_map_step (Suc n) h d func keys permissive =
     s_map_items n h (h ! d) d func keys permissive"
| "s_map_items n h [] d func keys permissive = Some (None, h)"
| "s_map_items n h ((k, Ref v) # rest) d func keys permissive =
     (case s_map_step n h v func keys permissive of
        None \<Rightarrow> None
      | Some (Some e, h') \<Rightarrow> Some (Some e, h')
      | Some (None, h') \<Rightarrow> s_map_items n h' rest d func keys permissive)"
| "s_map_items n h ((k, Atom v) # rest) d func keys permissive =
     (if in_sel_keys k keys (h ! d) then
        (case func v of
           None \<Rightarrow>
             if \<not> permissive then Some (Some (Exception_could_not_apply v), h)
             else s_map_items n h rest d func keys permissive
         | Some new_val \<Rightarrow>
             s_map_items n (h[d := AList.update k (Atom new_val) (h ! d)]) rest d
               func keys permissive)
      else s_map_items n h rest d func keys permissive)"

definition s_recursive_map_dict ::
    "nat \<Rightarrow> ('k, 'a) store \<Rightarrow> 'a pyval \<Rightarrow> ('a \<Rightarrow> 'a option) \<Rightarrow> 'k list option \<Rightarrow> bool \<Rightarrow>
     bool \<Rightarrow> ((('a, unit) func_error + 'a pyval option) \<times> ('k, 'a) store) option" where
  "s_recursive_map_dict fuel h d func keys in_place permissive =
     (case s_new_d fuel h d in_place of
        None \<Rightarrow> None
      | Some (new_d, h1) \<Rightarrow>
          (case (case new_d of
                   Atom x \<Rightarrow> Some (None, h1)
                 | Ref a \<Rightarrow> s_map_step fuel h1 a func keys permissive) of
             None \<Rightarrow> None
           | Some (Some e, h2) \<Rightarrow> Some (Inl e, h2)
           | Some (None, h2) \<Rightarrow> Some (Inr (s_return in_place new_d), h2)))"

text \<open>
  What a call may do to the store around a dictionary it owns, above the address \<open>m\<close>:
  \<open>closed_from m h\<close> says that the objects from \<open>m\<close> on hold references only to
  objects from \<open>m\<close> on; \<open>unchanged_below m h h'\<close> that every object below \<open>m\<close> is as it
  was; \<open>local_change m h h'\<close> moreover that no object was created and no object got a
  reference it did not hold.
\<close>

definition valid_ref :: "nat \<Rightarrow> ('k, 'a) store \<Rightarrow> 'a pyval \<Rightarrow> bool" where
  "valid_ref m h v = (case v of Atom x \<Rightarrow> True | Ref b \<Rightarrow> m \<le> b \<and> b < length h)"

definition closed_from :: "nat \<Rightarrow> ('k, 'a) store \<Rightarrow> bool" where
  "closed_from m h =
     (\<forall>a. m \<le> a \<and> a < length h \<longrightarrow> (\<forall>(k, v) \<in> set (h ! a). valid_ref m h v))"

definition unchanged_below :: "nat \<Rightarrow> ('k, 'a) store \<Rightarrow> ('k, 'a) store \<Rightarrow> bool" where
  "unchanged_below m h h' = (length h \<le> length h' \<and> (\<forall>a < m. h' ! a = h ! a))"

definition local_change :: "nat \<Rightarrow> ('k, 'a) store \<Rightarrow> ('k, 'a) store \<Rightarrow> bool" where
  "local_change m h h' =
     (length h' = length h \<and> (\<forall>a < m. h' ! a = h ! a) \<and>
      (\<forall>a < length h. \<forall>k b. (k, Ref b) \<in> set (h' ! a) \<longrightarrow> (k, Ref b) \<in> set (h ! a)))"


text \<open>
  \<open>readable n h v\<close>: the value is a leaf or a dictionary whose nesting is less than
  \<open>n\<close> deep, that is, \<open>tree_of n h v\<close> reads it.
\<close>

fun readable :: "nat \<Rightarrow> ('k, 'a) store \<Rightarrow> 'a pyval \<Rightarrow> bool" where
  "readable n h (Atom x) = True"
| "readable 0 h (Ref a) = False"
| "readable (Suc n) h (Ref a) = (a < length h \<and> (\<forall>(k, v) \<in> set (h ! a). readable n h v))"

text \<open>
  What a call with \<^verbatim>\<open>in_place=False\<close> owes its caller, from the store \<open>h\<close> before the
  call to the store \<open>h'\<close> after it: every object that existed is unchanged, the
  caller's dictionary \<open>d\<close> reads as the same tree, and a call that returns (\<open>Inr\<close>)
  returns a dictionary object that did not exist before.
\<close>

definition original_kept ::
    "nat \<Rightarrow> ('k, 'a) store \<Rightarrow> 'a pyval \<Rightarrow> 'e + 'a pyval option \<Rightarrow> ('k, 'a) store \<Rightarrow> bool" where
  "original_kept fuel h d res h' =
     (take (length h) h' = h \<and> tree_of fuel h' d = tree_of fuel h d \<and>
      (case res of
         Inl e \<Rightarrow> True
       | Inr r \<Rightarrow> (\<exists>b. r = Some (Ref b) \<and> length h \<le> b \<and> b < length h')))"

text \<open>
  The example dictionary \<^verbatim>\<open>{1: 2, 3: {4: 5}, 6: {3: {7: 8}, 7: 10}, 7: 11}\<close> in a store:
  it is the object 3.
\<close>

definition example_store :: "(int, int) store" where
  "example_store =
     [[(4, Atom 5)], [(7, Atom 8)], [(3, Ref 1), (7, Atom 10)],
      [(1, Atom 2), (3, Ref 0), (6, Ref 2), (7, Atom 11)]]"


section \<open>Properties\<close>

text \<open>
  C3, as the specification states it: on the example dictionary,
  \<^verbatim>\<open>recursive_get_values_from_key(T, 7)\<close> is the list \<open>[10, 11]\<close>. It is not: the
  function collects the value of the key in the dictionary it is called on before it
  descends, and it descends into every nested dictionary, so the root's 11 comes first
  and the 8 under \<open>6, 3\<close> is collected as well.
\<close>

theorem C3_values_for_key_counterexample:
  "recursive_get_values_from_key T_example 7 \<noteq> Inr [Leaf 10, Leaf 11]"
  by (simp add: T_example_def)

text \<open>
  C3, amended: on the example dictionary, \<^verbatim>\<open>recursive_get_values_from_key(T, 7)\<close>
  returns exactly the list \<open>[11, 10, 8]\<close>, in that order.
\<close>

theorem C3_values_for_key:
  "recursive_get_values_from_key T_example 7 = Inr [Leaf 11, Leaf 10, Leaf 8]"
  by (simp add: T_example_def)


subsection \<open>Adding the key paths of a dictionary\<close>

lemma keys_of_cons_path [simp]: "keys_of (cons_path k pth) = k # keys_of pth"
  by (cases pth) simp_all

lemma under_simps [simp]:
  "under k [] = []"
  "under k ((pth, v) # es) = (cons_path k pth, v) # under k es"
  "under k (xs @ ys) = under k xs @ under k ys"
  by (simp_all add: under_def)

lemma iter_step_under: "iter_step d (k # p) = under k (iter_step d p)"
  by (induction d p rule: iter_step.induct) simp_all

lemma update_fresh: "k \<notin> fst ` set al \<Longrightarrow> AList.update k v al = al @ [(k, v)]"
  by (induction al) auto


lemma update_fresh_last:
  "k \<notin> fst ` set al \<Longrightarrow> AList.update k v (al @ [(k, v')]) = al @ [(k, v)]"
  by (induction al) auto

lemma add_all_append:
  "add_all (xs @ ys) R w =
     (case add_all xs R w of Inl e \<Rightarrow> Inl e | Inr (R', w') \<Rightarrow> add_all ys R' w')"
  by (induction xs arbitrary: R w) (auto split: sum.splits)

lemma add_all_warnings_mono:
  "add_all es R w = Inr (R', w') \<Longrightarrow> \<exists>w''. w' = w @ w''"
proof (induction es arbitrary: R w)
  case Nil then show ?case by simp
next
  case (Cons e es)
  then show ?case by (fastforce split: sum.splits)
qed

lemma add_step_quiet_init:
  "add_step t ks v i = Inr (t', []) \<Longrightarrow> add_step t ks v i' = Inr (t', [])"
  by (induction t ks v i arbitrary: t' rule: add_step.induct)
     (auto split: sum.splits option.splits prod.splits simp: Let_def)

lemma add_step_under:
  assumes "ks \<noteq> []"
    and "add_step (case map_of r k of None \<Rightarrow> Dict [] | Some t \<Rightarrow> t) ks v i = Inr (sub', [])"
  shows "add_step (Dict r) (k # ks) v i' = Inr (Dict (AList.update k sub' r), [])"
proof -
  from assms(1) obtain k' ks' where ks: "ks = k' # ks'" by (cases ks) auto
  from add_step_quiet_init[OF assms(2)] show ?thesis
    by (simp add: ks Let_def)
qed

lemma under_add_all:
  assumes "\<forall>(pth, v) \<in> set es. keys_of pth \<noteq> []"
    and "es \<noteq> []"
    and "add_all es (case map_of r k of None \<Rightarrow> Dict [] | Some t \<Rightarrow> t) [] = Inr (sub', [])"
  shows "add_all (under k es) (Dict r) w = Inr (Dict (AList.update k sub' r), w)"
  using assms
proof (induction es arbitrary: r w)
  case Nil
  then show ?case by simp
next
  case (Cons e es)
  obtain pth v where e: "e = (pth, v)" by (cases e)
  let ?sub = "case map_of r k of None \<Rightarrow> Dict [] | Some t \<Rightarrow> t"
  from Cons.prems(3) obtain sub1 w1 where
    s1: "add_step ?sub (keys_of pth) v pth = Inr (sub1, w1)"
    and rest: "add_all es sub1 w1 = Inr (sub', [])"
    by (auto simp: e recursive_add_def finish_def split: sum.splits)
  from add_all_warnings_mono[OF rest] have w1: "w1 = []" by simp
  from Cons.prems(1) have ne: "keys_of pth \<noteq> []" by (simp add: e)
  have step: "add_step (Dict r) (k # keys_of pth) v (cons_path k pth)
                = Inr (Dict (AList.update k sub1 r), [])"
    using add_step_under[OF ne] s1 w1 by simp
  show ?case
  proof (cases "es = []")
    case True
    with rest w1 have "sub' = sub1" by simp
    with step True show ?thesis by (simp add: e recursive_add_def finish_def)
  next
    case False
    have lk: "(case map_of (AList.update k sub1 r) k of None \<Rightarrow> Dict [] | Some t \<Rightarrow> t) = sub1"
      by (simp add: update_conv')
    have "add_all (under k es) (Dict (AList.update k sub1 r)) w
            = Inr (Dict (AList.update k sub' (AList.update k sub1 r)), w)"
      apply (rule Cons.IH)
      using Cons.prems(1) False rest w1 lk by auto
    with step show ?thesis by (simp add: e recursive_add_def finish_def)
  qed
qed

lemma iter_step_nonempty_paths:
  "\<forall>(pth, v) \<in> set (iter_step d p). keys_of pth \<noteq> []"
  by (induction d p rule: iter_step.induct) auto

lemma dict_induct [case_names Nil Leaf Dict]:
  fixes d :: "('k \<times> ('k, 'a) tree) list"
  assumes "P []"
    and "\<And>key x rest. P rest \<Longrightarrow> P ((key, Leaf x) # rest)"
    and "\<And>key d rest. P d \<Longrightarrow> P rest \<Longrightarrow> P ((key, Dict d) # rest)"
  shows "P d"
proof -
  have "(\<lambda>d (p :: 'k list). P d) d []"
    by (rule iter_step.induct) (use assms in auto)
  then show ?thesis .
qed

lemma add_all_iter_step:
  "wf_tree (Dict d) \<Longrightarrow> fst ` set d \<inter> fst ` set r = {} \<Longrightarrow>
   add_all (iter_step d []) (Dict r) w = Inr (Dict (r @ d), w)"
proof (induction d arbitrary: r w rule: dict_induct)
  case Nil
  then show ?case by simp
next
  case (Leaf key x rest)
  from Leaf.prems have fresh: "key \<notin> fst ` set r" and wf: "wf_tree (Dict rest)"
    and disj: "fst ` set rest \<inter> fst ` set (r @ [(key, Leaf x)]) = {}"
    by auto
  have "add_all (iter_step rest []) (Dict (r @ [(key, Leaf x)])) w
          = Inr (Dict ((r @ [(key, Leaf x)]) @ rest), w)"
    by (rule Leaf.IH[OF wf disj])
  then show ?case
    by (simp add: recursive_add_def finish_def update_fresh[OF fresh])
next
  case (Dict key d rest)
  from Dict.prems have fresh: "key \<notin> fst ` set r" and wfd: "wf_tree (Dict d)"
    and wf: "wf_tree (Dict rest)"
    and disj: "fst ` set rest \<inter> fst ` set (r @ [(key, Dict d)]) = {}"
    by auto
  have sub: "add_all (iter_step d []) (Dict []) [] = Inr (Dict d, [])"
    using Dict.IH(1)[OF wfd, of "[]" "[]"] by simp
  have lk: "(case map_of r key of None \<Rightarrow> Dict [] | Some t \<Rightarrow> t) = Dict []"
    using fresh by (simp add: map_of_eq_None_iff[THEN iffD2])
  have block: "\<exists>r1. add_all (iter_step d [key]) (Dict r) w = Inr (Dict r1, w)
                  \<and> AList.update key (Dict d) r1 = r @ [(key, Dict d)]"
  proof (cases "iter_step d [] = []")
    case True
    then show ?thesis by (simp add: iter_step_under update_fresh[OF fresh])
  next
    case False
    have "add_all (under key (iter_step d [])) (Dict r) w
            = Inr (Dict (AList.update key (Dict d) r), w)"
      by (rule under_add_all[OF iter_step_nonempty_paths False]) (simp add: lk sub)
    then show ?thesis
      by (simp add: iter_step_under update_fresh[OF fresh] update_fresh_last[OF fresh])
  qed
  then obtain r1 where r1: "add_all (iter_step d [key]) (Dict r) w = Inr (Dict r1, w)"
    and upd: "AList.update key (Dict d) r1 = r @ [(key, Dict d)]" by blast
  have "add_all (iter_step rest []) (Dict (r @ [(key, Dict d)])) w
          = Inr (Dict ((r @ [(key, Dict d)]) @ rest), w)"
    by (rule Dict.IH(2)[OF wf disj])
  then show ?case
    by (simp add: add_all_append r1 recursive_add_def finish_def upd)
qed

lemma merge_unique_distinct:
  "distinct (map fst xs) \<Longrightarrow> fst ` set xs \<inter> set u = {} \<Longrightarrow> merge_unique xs u n = n @ xs"
proof (induction xs arbitrary: u n)
  case Nil
  then show ?case by simp
next
  case (Cons x xs)
  obtain pth v where x: "x = (pth, v)" by (cases x)
  from Cons.prems have "pth \<notin> set u" "distinct (map fst xs)"
    "fst ` set xs \<inter> set (u @ [pth]) = {}"
    by (auto simp: x)
  with Cons.IH[of "u @ [pth]" "n @ [(pth, v)]"] show ?case by (simp add: x)
qed

lemma iter_step_paths:
  "(pth, v) \<in> set (iter_step d p) \<Longrightarrow> \<exists>k q. pth = PyList (p @ k # q) \<and> k \<in> fst ` set d"
proof (induction d p rule: iter_step.induct)
  case (1 key_path)
  then show ?case by simp
next
  case (2 key x rest key_path)
  from "2.prems" consider "pth = PyList (key_path @ [key])"
    | "(pth, v) \<in> set (iter_step rest key_path)" by auto
  then show ?case
  proof cases
    case 1
    then show ?thesis by auto
  next
    case 2
    from "2.IH"[OF 2] show ?thesis by auto
  qed
next
  case (3 key d rest key_path)
  from "3.prems" consider
      "(pth, v) \<in> set (iter_step d (key_path @ [key]))"
    | "pth = PyList (key_path @ [key])"
    | "(pth, v) \<in> set (iter_step rest key_path)"
    by auto
  then show ?case
  proof cases
    case 1
    from "3.IH"(1)[OF 1] obtain k q where "pth = PyList (key_path @ key # k # q)" by auto
    then show ?thesis by auto
  next
    case 2
    then show ?thesis by auto
  next
    case 3
    from "3.IH"(2)[OF 3] show ?thesis by auto
  qed
qed

lemma iter_step_not_prefix:
  "PyList (p @ [key]) \<notin> fst ` set (iter_step d (p @ [key]))"
proof
  assume "PyList (p @ [key]) \<in> fst ` set (iter_step d (p @ [key]))"
  then obtain v where "(PyList (p @ [key]), v) \<in> set (iter_step d (p @ [key]))" by force
  from iter_step_paths[OF this] show False by simp
qed

lemma iter_step_other_key:
  assumes "key \<notin> fst ` set rest"
  shows "PyList (p @ key # q) \<notin> fst ` set (iter_step rest p)"
proof
  assume "PyList (p @ key # q) \<in> fst ` set (iter_step rest p)"
  then obtain v where "(PyList (p @ key # q), v) \<in> set (iter_step rest p)" by force
  from iter_step_paths[OF this] assms show False by simp
qed

lemma iter_step_distinct:
  "wf_tree (Dict d) \<Longrightarrow> distinct (map fst (iter_step d p))"
proof (induction d p rule: iter_step.induct)
  case (1 key_path)
  then show ?case by simp
next
  case (2 key x rest key_path)
  from "2.prems" have wf: "wf_tree (Dict rest)" and fresh: "key \<notin> fst ` set rest" by auto
  have "PyList (key_path @ [key]) \<notin> fst ` set (iter_step rest key_path)"
    by (rule iter_step_other_key[OF fresh])
  with "2.IH"[OF wf] show ?case by simp
next
  case (3 key d rest key_path)
  from "3.prems" have wfd: "wf_tree (Dict d)" and wf: "wf_tree (Dict rest)"
    and fresh: "key \<notin> fst ` set rest" by auto
  have a: "PyList (key_path @ [key]) \<notin> fst ` set (iter_step rest key_path)"
    by (rule iter_step_other_key[OF fresh])
  have b: "PyList (key_path @ [key]) \<notin> fst ` set (iter_step d (key_path @ [key]))"
    by (rule iter_step_not_prefix)
  have c: "fst ` set (iter_step d (key_path @ [key])) \<inter> fst ` set (iter_step rest key_path) = {}"
  proof (rule ccontr)
    assume "\<not> ?thesis"
    then obtain pth where 1: "pth \<in> fst ` set (iter_step d (key_path @ [key]))"
      and 2: "pth \<in> fst ` set (iter_step rest key_path)" by blast
    from 1 obtain v where "(pth, v) \<in> set (iter_step d (key_path @ [key]))" by force
    from iter_step_paths[OF this] obtain k q where "pth = PyList (key_path @ key # k # q)"
      by auto
    with 2 iter_step_other_key[OF fresh, of key_path "k # q"] show False by simp
  qed
  from "3.IH"(1)[OF wfd] "3.IH"(2)[OF wf] a b c show ?case by auto
qed

lemma py_eq_refl: "wf_tree t \<Longrightarrow> py_eq t t"
proof (induction t)
  case (Leaf x)
  then show ?case by simp
next
  case (Dict d)
  have "(case map_of d k of None \<Rightarrow> False | Some w \<Rightarrow> py_eq v w)" if kv: "(k, v) \<in> set d" for k v
  proof -
    from Dict.prems have "distinct (map fst d)" and "wf_tree v"
      using kv by (auto simp: list_all_iff)
    with kv have "map_of d k = Some v" by simp
    moreover have "py_eq v v" using Dict.IH[of "(k, v)" v] kv \<open>wf_tree v\<close> by simp
    ultimately show ?thesis by simp
  qed
  then show ?case by (auto simp: list_all_iff)
qed

text \<open>
  C2: merging the one-element sequence that holds a dictionary \<open>T\<close> returns \<open>T\<close>: the same
  keys with the same values at every level (and in the same order), hence a dictionary
  equal to \<open>T\<close> for Python's \<^verbatim>\<open>==\<close>; no warning is logged.
\<close>

theorem C2_merge_single:
  assumes "wf_tree (Dict d)"
  shows "recursive_merge_dicts [Dict d] = Inr (Dict d, []) \<and> py_eq (Dict d) (Dict d)"
proof -
  have "merge_unique (iter_step d []) [] [] = iter_step d []"
    using merge_unique_distinct[OF iter_step_distinct[OF assms], of "[]" "[]" "[]"] by simp
  moreover have "add_all (iter_step d []) (Dict []) [] = Inr (Dict d, [])"
    using add_all_iter_step[OF assms, of "[]" "[]"] by simp
  ultimately show ?thesis
    using py_eq_refl[OF assms] by (simp add: recursive_merge_dicts_def)
qed

theorem C2_merge_single_witness:
  "wf_tree T_example \<and> recursive_merge_dicts [T_example] = Inr (T_example, [])
     \<and> py_eq T_example T_example"
  using C2_merge_single[of "[(1::int, Leaf (2::int)), (3, Dict [(4, Leaf 5)]),
           (6, Dict [(3, Dict [(7, Leaf 8)]), (7, Leaf 10)]), (7, Leaf 11)]"]
  by (simp add: T_example_def)


subsection \<open>Building from the key paths of a dictionary\<close>

lemma as_tuples_simps [simp]:
  "as_tuples [] = []"
  "as_tuples ((pth, v) # es) = (PyTuple (keys_of pth), v) # as_tuples es"
  "as_tuples (xs @ ys) = as_tuples xs @ as_tuples ys"
  by (simp_all add: as_tuples_def)

lemma as_tuples_under: "as_tuples (under k es) = under k (as_tuples es)"
  by (induction es) auto

lemma as_tuples_nonempty_paths:
  "\<forall>(pth, v) \<in> set es. keys_of pth \<noteq> [] \<Longrightarrow> \<forall>(pth, v) \<in> set (as_tuples es). keys_of pth \<noteq> []"
  by (induction es) auto

lemma add_all_as_tuples_iter_step:
  "wf_tree (Dict d) \<Longrightarrow> fst ` set d \<inter> fst ` set r = {} \<Longrightarrow>
   add_all (as_tuples (iter_step d [])) (Dict r) w = Inr (Dict (r @ d), w)"
proof (induction d arbitrary: r w rule: dict_induct)
  case Nil
  then show ?case by simp
next
  case (Leaf key x rest)
  from Leaf.prems have fresh: "key \<notin> fst ` set r" and wf: "wf_tree (Dict rest)"
    and disj: "fst ` set rest \<inter> fst ` set (r @ [(key, Leaf x)]) = {}"
    by auto
  have "add_all (as_tuples (iter_step rest [])) (Dict (r @ [(key, Leaf x)])) w
          = Inr (Dict ((r @ [(key, Leaf x)]) @ rest), w)"
    by (rule Leaf.IH[OF wf disj])
  then show ?case
    by (simp add: recursive_add_def finish_def update_fresh[OF fresh])
next
  case (Dict key d rest)
  from Dict.prems have fresh: "key \<notin> fst ` set r" and wfd: "wf_tree (Dict d)"
    and wf: "wf_tree (Dict rest)"
    and disj: "fst ` set rest \<inter> fst ` set (r @ [(key, Dict d)]) = {}"
    by auto
  have sub: "add_all (as_tuples (iter_step d [])) (Dict []) [] = Inr (Dict d, [])"
    using Dict.IH(1)[OF wfd, of "[]" "[]"] by simp
  have lk: "(case map_of r key of None \<Rightarrow> Dict [] | Some t \<Rightarrow> t) = Dict []"
    using fresh by (simp add: map_of_eq_None_iff[THEN iffD2])
  have block: "\<exists>r1. add_all (as_tuples (iter_step d [key])) (Dict r) w = Inr (Dict r1, w)
                  \<and> AList.update key (Dict d) r1 = r @ [(key, Dict d)]"
  proof (cases "iter_step d [] = []")
    case True
    then show ?thesis by (simp add: iter_step_under update_fresh[OF fresh])
  next
    case False
    then have ne: "as_tuples (iter_step d []) \<noteq> []" by (simp add: as_tuples_def)
    have "add_all (under key (as_tuples (iter_step d []))) (Dict r) w
            = Inr (Dict (AList.update key (Dict d) r), w)"
      by (rule under_add_all[OF as_tuples_nonempty_paths[OF iter_step_nonempty_paths] ne])
         (simp add: lk sub)
    then show ?thesis
      by (simp add: iter_step_under as_tuples_under update_fresh[OF fresh]
            update_fresh_last[OF fresh])
  qed
  then obtain r1 where r1: "add_all (as_tuples (iter_step d [key])) (Dict r) w = Inr (Dict r1, w)"
    and upd: "AList.update key (Dict d) r1 = r @ [(key, Dict d)]" by blast
  have "add_all (as_tuples (iter_step rest [])) (Dict (r @ [(key, Dict d)])) w
          = Inr (Dict ((r @ [(key, Dict d)]) @ rest), w)"
    by (rule Dict.IH(2)[OF wf disj])
  then show ?case
    by (simp add: add_all_append r1 recursive_add_def finish_def upd)
qed

lemma build_unique_distinct:
  "distinct (map fst xs) \<Longrightarrow> fst ` set xs \<inter> fst ` set u = {} \<Longrightarrow>
   \<forall>(pth, v) \<in> set xs. hashable pth \<Longrightarrow> build_unique xs u w = Inr (u @ xs, w)"
proof (induction xs arbitrary: u)
  case Nil
  then show ?case by simp
next
  case (Cons x xs)
  obtain pth v where x: "x = (pth, v)" by (cases x)
  from Cons.prems have fresh: "pth \<notin> fst ` set u" and h: "hashable pth"
    and d: "distinct (map fst xs)" and rest: "\<forall>(pth, v) \<in> set xs. hashable pth"
    and disj: "fst ` set xs \<inter> fst ` set (u @ [(pth, v)]) = {}"
    by (auto simp: x)
  from fresh have none: "map_of u pth = None" by (simp add: map_of_eq_None_iff)
  from Cons.IH[OF d disj rest] show ?case
    by (simp add: x h none update_fresh[OF fresh])
qed

lemma as_tuples_distinct:
  assumes "distinct (map fst es)" and "\<forall>(pth, v) \<in> set es. \<exists>ks. pth = PyList ks"
  shows "distinct (map fst (as_tuples es))"
proof -
  have "map fst (as_tuples es) = map (\<lambda>pth. PyTuple (keys_of pth)) (map fst es)"
    by (simp add: as_tuples_def case_prod_unfold comp_def)
  moreover have "inj_on (\<lambda>pth. PyTuple (keys_of pth)) (set (map fst es))"
  proof (rule inj_onI)
    fix x y assume x: "x \<in> set (map fst es)" and y: "y \<in> set (map fst es)"
      and eq: "PyTuple (keys_of x) = PyTuple (keys_of y)"
    from x assms(2) obtain ks where "x = PyList ks" by fastforce
    moreover from y assms(2) obtain ks' where "y = PyList ks'" by fastforce
    ultimately show "x = y" using eq by simp
  qed
  moreover from assms(1) have "distinct (map (\<lambda>pth. PyTuple (keys_of pth)) (map fst es))"
    using calculation(2) by (subst distinct_map) blast
  ultimately show ?thesis by simp
qed

lemma iter_step_lists: "\<forall>(pth, v) \<in> set (iter_step d p). \<exists>ks. pth = PyList ks"
  using iter_step_paths by fastforce

lemma build_as_tuples_iter:
  assumes "wf_tree (Dict d)"
  shows "recursive_build (as_tuples (iter_step d [])) = Inr (Dict d, [])"
proof -
  have "distinct (map fst (as_tuples (iter_step d [])))"
    by (rule as_tuples_distinct[OF iter_step_distinct[OF assms] iter_step_lists])
  moreover have "\<forall>(pth, v) \<in> set (as_tuples (iter_step d [])). hashable pth"
    by (auto simp: as_tuples_def)
  ultimately have "build_unique (as_tuples (iter_step d [])) [] [] = Inr (as_tuples (iter_step d []), [])"
    using build_unique_distinct[of "as_tuples (iter_step d [])" "[]" "[]"] by simp
  then show ?thesis
    using add_all_as_tuples_iter_step[OF assms, of "[]" "[]"] by (simp add: recursive_build_def)
qed

lemma build_of_iter_nonempty:
  "d \<noteq> [] \<Longrightarrow> build_of_iter (Dict d) = Inl (TypeError Unhashable)"
proof -
  assume "d \<noteq> []"
  then obtain key v rest where d: "d = (key, v) # rest" by (cases d) auto
  have "\<exists>pth val es. iter_step d [] = (PyList pth, val) # es"
  proof (cases v)
    case (Leaf x)
    then show ?thesis by (simp add: d)
  next
    case (Dict d')
    show ?thesis
    proof (cases "iter_step d' [key]")
      case Nil
      then show ?thesis by (simp add: d Dict)
    next
      case (Cons e es)
      obtain pth val where e: "e = (pth, val)" by (cases e)
      from iter_step_lists[of d' "[key]"] Cons e obtain ks where "pth = PyList ks" by auto
      then show ?thesis by (simp add: d Dict Cons e)
    qed
  qed
  then show ?thesis
    by (auto simp: build_of_iter_def recursive_build_def)
qed

text \<open>
  C1: building a tree from the key paths that \<^verbatim>\<open>recursive_iter_key_paths\<close> yields
  reproduces the tree. The code does not: the key paths it yields are lists, and
  \<^verbatim>\<open>recursive_build\<close> uses each key path as a dictionary key, so the first pair raises
  \<^verbatim>\<open>TypeError\<close> (\<open>build_of_iter_nonempty\<close>: for every dictionary that is not empty).
  Evaluated on \<^verbatim>\<open>{1: 2}\<close> and on the example dictionary. With the key paths converted
  to tuples the round trip holds (\<open>build_as_tuples_iter\<close>), as it does through
  \<^verbatim>\<open>recursive_merge_dicts\<close>, which accepts the lists.
\<close>

theorem C1_build_of_iter_type_error:
  "build_of_iter (Dict [(1 :: int, Leaf (2 :: int))]) = Inl (TypeError Unhashable)
   \<and> build_of_iter T_example = Inl (TypeError Unhashable)"
  by (simp add: build_of_iter_def recursive_build_def T_example_def)


subsection \<open>Walking a key path: add, replace, remove\<close>

lemma nonempty_cons: "xs \<noteq> [] \<Longrightarrow> \<exists>k' tl. xs = k' # tl"
  by (cases xs) auto

lemma add_step_reaches_leaf:
  "walk t ks1 = Some (Leaf x) \<Longrightarrow> rest \<noteq> [] \<Longrightarrow>
   add_step t (ks1 @ rest) v init = Inr (t, [Not_added v init])"
proof (induction ks1 arbitrary: t)
  case Nil
  then show ?case by simp
next
  case (Cons k ks1)
  from Cons.prems(1) obtain d sub where t: "t = Dict d" and sub: "map_of d k = Some sub"
    and w: "walk sub ks1 = Some (Leaf x)"
    by (cases t) (auto split: option.splits)
  from Cons.prems(2) obtain k' tl where p: "ks1 @ rest = k' # tl"
    using nonempty_cons[of "ks1 @ rest"] by auto
  from Cons.IH[OF w Cons.prems(2)] have "add_step sub (k' # tl) v init = Inr (sub, [Not_added v init])"
    by (simp add: p)
  then show ?case
    by (simp add: t sub p update_triv[OF sub])
qed

lemma replace_step_absent_on_the_way:
  "walk t ks1 = Some (Dict d) \<Longrightarrow> map_of d k = None \<Longrightarrow> rest \<noteq> [] \<Longrightarrow>
   replace_step ops t (ks1 @ k # rest) v kpl = Inr t"
proof (induction ks1 arbitrary: t kpl)
  case Nil
  from Nil.prems(3) obtain k' tl where "rest = k' # tl" by (cases rest) auto
  with Nil show ?case by simp
next
  case (Cons k0 ks1)
  from Cons.prems(1) obtain d0 sub where t: "t = Dict d0" and sub: "map_of d0 k0 = Some sub"
    and w: "walk sub ks1 = Some (Dict d)"
    by (cases t) (auto split: option.splits)
  obtain k' tl where p: "ks1 @ k # rest = k' # tl"
    using nonempty_cons[of "ks1 @ k # rest"] by auto
  from Cons.IH[OF w Cons.prems(2,3), of "kpl @ [k0]"]
  have "replace_step ops sub (k' # tl) v (kpl @ [k0]) = Inr sub" by (simp add: p)
  then show ?case by (simp add: t sub p update_triv[OF sub])
qed

lemma replace_step_absent_final:
  "walk t ks = Some (Dict d) \<Longrightarrow> map_of d k = None \<Longrightarrow>
   replace_step ops t (ks @ [k]) v kpl = Inl (KeyError (kpl @ ks @ [k]))"
proof (induction ks arbitrary: t kpl)
  case Nil
  then show ?case by simp
next
  case (Cons k0 ks)
  from Cons.prems(1) obtain d0 sub where t: "t = Dict d0" and sub: "map_of d0 k0 = Some sub"
    and w: "walk sub ks = Some (Dict d)"
    by (cases t) (auto split: option.splits)
  obtain k' tl where p: "ks @ [k] = k' # tl"
    using nonempty_cons[of "ks @ [k]"] by auto
  from Cons.IH[OF w Cons.prems(2), of "kpl @ [k0]"]
  have "replace_step ops sub (k' # tl) v (kpl @ [k0]) = Inl (KeyError (kpl @ k0 # ks @ [k]))"
    by (simp add: p)
  then show ?case by (simp add: t sub p)
qed

lemma replace_step_present_final:
  "walk t ks = Some (Dict d) \<Longrightarrow> map_of d k = Some old \<Longrightarrow>
   replace_step ops t (ks @ [k]) v kpl = Inr (update_at t ks (Dict (AList.update k v d)))"
proof (induction ks arbitrary: t kpl)
  case Nil
  then show ?case by simp
next
  case (Cons k0 ks)
  from Cons.prems(1) obtain d0 sub where t: "t = Dict d0" and sub: "map_of d0 k0 = Some sub"
    and w: "walk sub ks = Some (Dict d)"
    by (cases t) (auto split: option.splits)
  obtain k' tl where p: "ks @ [k] = k' # tl"
    using nonempty_cons[of "ks @ [k]"] by auto
  from Cons.IH[OF w Cons.prems(2), of "kpl @ [k0]"]
  have "replace_step ops sub (k' # tl) v (kpl @ [k0]) = Inr (update_at sub ks (Dict (AList.update k v d)))"
    by (simp add: p)
  then show ?case by (simp add: t sub p)
qed

lemma walk_update_at:
  "walk t ks = Some old \<Longrightarrow> walk (update_at t ks new) ks = Some new"
proof (induction ks arbitrary: t)
  case Nil
  then show ?case by simp
next
  case (Cons k ks)
  then show ?case
    by (cases t) (auto split: option.splits simp: update_conv')
qed

lemma walk_append:
  "walk t (ks @ ks') = (case walk t ks of None \<Rightarrow> None | Some s \<Rightarrow> walk s ks')"
proof (induction ks arbitrary: t)
  case Nil
  then show ?case by simp
next
  case (Cons k ks)
  then show ?case by (cases t) (auto split: option.splits)
qed

lemma replace_step_leaf_on_the_way:
  "walk t ks1 = Some (Leaf x) \<Longrightarrow> rest \<noteq> [] \<Longrightarrow> not_a_container ops x \<Longrightarrow>
   replace_step ops t (ks1 @ rest) v kpl =
     Inl (TypeError (if length rest = 1 then Not_subscriptable else Not_iterable))"
proof (induction ks1 arbitrary: t kpl)
  case Nil
  from Nil.prems(2) obtain k' tl where r: "rest = k' # tl" by (cases rest) auto
  from Nil.prems(1,3) show ?case
    by (cases tl) (simp_all add: r not_a_container_def)
next
  case (Cons k0 ks1)
  from Cons.prems(1) obtain d0 sub where t: "t = Dict d0" and sub: "map_of d0 k0 = Some sub"
    and w: "walk sub ks1 = Some (Leaf x)"
    by (cases t) (auto split: option.splits)
  from Cons.prems(2) obtain k' tl where p: "ks1 @ rest = k' # tl"
    using nonempty_cons[of "ks1 @ rest"] by auto
  from Cons.IH[OF w Cons.prems(2,3), of "kpl @ [k0]"]
  have "replace_step ops sub (k' # tl) v (kpl @ [k0]) =
     Inl (TypeError (if length rest = 1 then Not_subscriptable else Not_iterable))"
    by (simp add: p)
  then show ?case by (simp add: t sub p)
qed

lemma remove_step_leaf_on_the_way:
  "walk t ks1 = Some (Leaf x) \<Longrightarrow> rest \<noteq> [] \<Longrightarrow> remove_step t (ks1 @ rest) v kpl = Inr t"
proof (induction ks1 arbitrary: t kpl)
  case Nil
  then show ?case by simp
next
  case (Cons k0 ks1)
  from Cons.prems(1) obtain d0 sub where t: "t = Dict d0" and sub: "map_of d0 k0 = Some sub"
    and w: "walk sub ks1 = Some (Leaf x)"
    by (cases t) (auto split: option.splits)
  from Cons.prems(2) obtain k' tl where p: "ks1 @ rest = k' # tl"
    using nonempty_cons[of "ks1 @ rest"] by auto
  from Cons.IH[OF w Cons.prems(2), of "kpl @ [k0]"]
  have "remove_step sub (k' # tl) v (kpl @ [k0]) = Inr sub" by (simp add: p)
  then show ?case by (simp add: t sub p update_triv[OF sub])
qed

lemma remove_step_final:
  "walk t ks = Some (Dict d) \<Longrightarrow>
   remove_step t (ks @ [k]) v kpl =
     (case map_of d k of
        None \<Rightarrow> Inl (KeyError (kpl @ ks @ [k]))
      | Some found \<Rightarrow>
          if \<not> py_eq found v then Inl (ValueError (kpl @ ks @ [k]) v found)
          else Inr (update_at t ks (Dict (AList.delete k d))))"
proof (induction ks arbitrary: t kpl)
  case Nil
  then show ?case by (simp split: option.splits)
next
  case (Cons k0 ks)
  from Cons.prems(1) obtain d0 sub where t: "t = Dict d0" and sub: "map_of d0 k0 = Some sub"
    and w: "walk sub ks = Some (Dict d)"
    by (cases t) (auto split: option.splits)
  obtain k' tl where p: "ks @ [k] = k' # tl"
    using nonempty_cons[of "ks @ [k]"] by auto
  from Cons.IH[OF w, of "kpl @ [k0]"]
  show ?case by (simp add: t sub p split: option.splits)
qed

text \<open>
  C5: when the walk of \<^verbatim>\<open>recursive_add\<close> along its key path reaches a value that is
  not a dictionary while keys are left (the keys \<open>ks1\<close> lead to a leaf and \<open>rest\<close> is
  not empty), the call raises nothing, logs exactly one warning, which names the whole
  original path and the value, and leaves the dictionary as it was: nothing has been
  inserted before the leaf is reached and nothing is inserted after. In particular
  \<^verbatim>\<open>recursive_add(T, ((6, 3, 7, 12), 13), in_place=False)\<close> returns a dictionary equal
  to \<open>T\<close>.
\<close>

theorem C5_add_reaches_leaf:
  assumes "walk T ks1 = Some (Leaf x)" and "rest \<noteq> []" and "keys_of path = ks1 @ rest"
  shows "recursive_add T (path, v) in_place = Inr (finish in_place T T [Not_added v path])
         \<and> recursive_add T_example (PyTuple [6, 3, 7, 12], Leaf 13) False =
           Inr \<lparr>returned = Some T_example, argument = T_example,
                warnings = [Not_added (Leaf 13) (PyTuple [6, 3, 7, 12])]\<rparr>
         \<and> py_eq T_example T_example"
proof -
  have "add_step T (keys_of path) v path = Inr (T, [Not_added v path])"
    using add_step_reaches_leaf[OF assms(1,2)] assms(3) by simp
  then have "recursive_add T (path, v) in_place = Inr (finish in_place T T [Not_added v path])"
    by (simp add: recursive_add_def deepcopy_def)
  moreover have "recursive_add T_example (PyTuple [6, 3, 7, 12], Leaf 13) False =
           Inr \<lparr>returned = Some T_example, argument = T_example,
                warnings = [Not_added (Leaf 13) (PyTuple [6, 3, 7, 12])]\<rparr>"
    by (simp add: recursive_add_def deepcopy_def finish_def T_example_def)
  moreover have "py_eq T_example T_example"
    by (simp add: T_example_def)
  ultimately show ?thesis by simp
qed

theorem C5_add_reaches_leaf_witness:
  "walk T_example [6, 3, 7] = Some (Leaf 8)
   \<and> recursive_add T_example (PyTuple [6, 3, 7, 12], Leaf 13) True =
       Inr \<lparr>returned = None, argument = T_example,
            warnings = [Not_added (Leaf 13) (PyTuple [6, 3, 7, 12])]\<rparr>"
proof -
  have w: "walk T_example [6, 3, 7] = Some (Leaf 8)" by (simp add: T_example_def)
  have ne: "[12 :: int] \<noteq> []" by simp
  have k: "keys_of (PyTuple [6, 3, 7, 12 :: int]) = [6, 3, 7] @ [12]" by simp
  from C5_add_reaches_leaf[OF w ne k, of "Leaf 13" True] w show ?thesis
    by (simp add: finish_def)
qed

text \<open>
  C6: when the keys before the last one lead \<^verbatim>\<open>recursive_remove\<close> through dictionaries
  to the dictionary \<open>d\<close>, then at the last key \<open>k\<close>: if \<open>k\<close> is not in \<open>d\<close> the call
  raises \<^verbatim>\<open>KeyError\<close> with the path walked; if the value found is not equal to the value
  given it raises \<^verbatim>\<open>ValueError\<close> with the path, the value given and the value found;
  otherwise the result is the tree with \<open>k\<close> and everything under it deleted from \<open>d\<close>
  and nothing else changed. On the example dictionary: removing \<open>((7,), 11)\<close> gives
  the dictionary without \<open>7: 11\<close>, \<open>((3, 6), 5)\<close> raises \<^verbatim>\<open>KeyError\<close> and
  \<open>((3, 4), 6)\<close> raises \<^verbatim>\<open>ValueError\<close>.
\<close>

theorem C6_remove_final_key:
  assumes "walk T ks = Some (Dict d)" and "keys_of path = ks @ [k]"
  shows "(map_of d k = None \<longrightarrow>
            recursive_remove T (path, v) in_place = Inl (KeyError (ks @ [k])))
       \<and> (\<forall>found. map_of d k = Some found \<and> \<not> py_eq found v \<longrightarrow>
            recursive_remove T (path, v) in_place = Inl (ValueError (ks @ [k]) v found))
       \<and> (\<forall>found. map_of d k = Some found \<and> py_eq found v \<longrightarrow>
            recursive_remove T (path, v) in_place =
              Inr (finish in_place T (update_at T ks (Dict (AList.delete k d))) [])
            \<and> walk (update_at T ks (Dict (AList.delete k d))) ks = Some (Dict (AList.delete k d))
            \<and> walk (update_at T ks (Dict (AList.delete k d))) (ks @ [k]) = None)
       \<and> recursive_remove T_example (PyTuple [7], Leaf 11) False =
            Inr \<lparr>returned = Some (Dict [(1, Leaf 2), (3, Dict [(4, Leaf 5)]),
                                         (6, Dict [(3, Dict [(7, Leaf 8)]), (7, Leaf 10)])]),
                 argument = T_example, warnings = []\<rparr>
       \<and> recursive_remove T_example (PyTuple [3, 6], Leaf 5) False = Inl (KeyError [3, 6])
       \<and> recursive_remove T_example (PyTuple [3, 4], Leaf 6) False =
            Inl (ValueError [3, 4] (Leaf 6) (Leaf 5))"
proof -
  let ?T' = "update_at T ks (Dict (AList.delete k d))"
  have step: "remove_step T (keys_of path) v [] =
     (case map_of d k of
        None \<Rightarrow> Inl (KeyError (ks @ [k]))
      | Some found \<Rightarrow>
          if \<not> py_eq found v then Inl (ValueError (ks @ [k]) v found) else Inr ?T')"
    using remove_step_final[OF assms(1), of k v "[]"] assms(2)
    by (simp split: option.split)
  have a: "map_of d k = None \<longrightarrow>
            recursive_remove T (path, v) in_place = Inl (KeyError (ks @ [k]))"
    by (simp add: recursive_remove_def deepcopy_def step)
  have b: "\<forall>found. map_of d k = Some found \<and> \<not> py_eq found v \<longrightarrow>
            recursive_remove T (path, v) in_place = Inl (ValueError (ks @ [k]) v found)"
    by (simp add: recursive_remove_def deepcopy_def step)
  have w1: "walk ?T' ks = Some (Dict (AList.delete k d))"
    by (rule walk_update_at[OF assms(1)])
  have w2: "walk ?T' (ks @ [k]) = None"
    by (simp add: walk_append w1 delete_conv')
  have c: "\<forall>found. map_of d k = Some found \<and> py_eq found v \<longrightarrow>
            recursive_remove T (path, v) in_place = Inr (finish in_place T ?T' [])
            \<and> walk ?T' ks = Some (Dict (AList.delete k d)) \<and> walk ?T' (ks @ [k]) = None"
    using w1 w2 by (auto simp: recursive_remove_def deepcopy_def step)
  have e1: "recursive_remove T_example (PyTuple [7], Leaf 11) False =
            Inr \<lparr>returned = Some (Dict [(1, Leaf 2), (3, Dict [(4, Leaf 5)]),
                                         (6, Dict [(3, Dict [(7, Leaf 8)]), (7, Leaf 10)])]),
                 argument = T_example, warnings = []\<rparr>"
    by (simp add: recursive_remove_def deepcopy_def finish_def T_example_def)
  have e2: "recursive_remove T_example (PyTuple [3, 6], Leaf 5) False = Inl (KeyError [3, 6])"
    by (simp add: recursive_remove_def deepcopy_def finish_def T_example_def)
  have e3: "recursive_remove T_example (PyTuple [3, 4], Leaf 6) False =
            Inl (ValueError [3, 4] (Leaf 6) (Leaf 5))"
    by (simp add: recursive_remove_def deepcopy_def finish_def T_example_def)
  from a b c e1 e2 e3 show ?thesis by blast
qed

theorem C6_remove_final_key_witness:
  "walk T_example [3] = Some (Dict [(4, Leaf 5)])
   \<and> recursive_remove T_example (PyTuple [3, 4], Leaf 5) False =
       Inr \<lparr>returned = Some (Dict [(1, Leaf 2), (3, Dict []),
                                    (6, Dict [(3, Dict [(7, Leaf 8)]), (7, Leaf 10)]),
                                    (7, Leaf 11)]),
            argument = T_example, warnings = []\<rparr>
   \<and> recursive_remove T_example (PyTuple [3, 6], Leaf 5) True = Inl (KeyError [3, 6])
   \<and> recursive_remove T_example (PyTuple [3, 4], Leaf 6) True =
       Inl (ValueError [3, 4] (Leaf 6) (Leaf 5))"
proof -
  have w: "walk T_example [3] = Some (Dict [(4, Leaf 5)])" by (simp add: T_example_def)
  have k4: "keys_of (PyTuple [3, 4 :: int]) = [3] @ [4]" by simp
  have k6: "keys_of (PyTuple [3, 6 :: int]) = [3] @ [6]" by simp
  have u: "update_at T_example [3] (Dict (AList.delete 4 [(4, Leaf 5)])) =
             Dict [(1, Leaf 2), (3, Dict []),
                   (6, Dict [(3, Dict [(7, Leaf 8)]), (7, Leaf 10)]), (7, Leaf 11)]"
    by (simp add: T_example_def)
  from C6_remove_final_key[OF w k4, of "Leaf 5" False]
       C6_remove_final_key[OF w k6, of "Leaf 5" True]
       C6_remove_final_key[OF w k4, of "Leaf 6" True] w u
  show ?thesis by (simp add: finish_def)
qed

text \<open>
  C7, for \<^verbatim>\<open>recursive_replace\<close>: when a key before the last one is not in the
  dictionary reached at that step, the call raises nothing and changes nothing; when
  the keys before the last one lead through dictionaries to the dictionary \<open>d\<close> and
  the last key is not in \<open>d\<close>, the call raises \<^verbatim>\<open>KeyError\<close> with exactly the path
  walked; when the last key is in \<open>d\<close>, its value, whatever it is, is overwritten with
  the value given and nothing else changes.
\<close>

theorem C7_replace:
  "(walk T ks1 = Some (Dict d) \<and> map_of d k = None \<and> rest \<noteq> [] \<and>
      keys_of path = ks1 @ k # rest \<longrightarrow>
      recursive_replace ops T (path, v) in_place = Inr (finish in_place T T []))
   \<and> (walk T ks = Some (Dict d) \<and> map_of d k = None \<and> keys_of path = ks @ [k] \<longrightarrow>
      recursive_replace ops T (path, v) in_place = Inl (KeyError (ks @ [k])))
   \<and> (walk T ks = Some (Dict d) \<and> map_of d k = Some old \<and> keys_of path = ks @ [k] \<longrightarrow>
      recursive_replace ops T (path, v) in_place =
        Inr (finish in_place T (update_at T ks (Dict (AList.update k v d))) [])
      \<and> walk (update_at T ks (Dict (AList.update k v d))) (ks @ [k]) = Some v)"
proof (intro conjI impI)
  assume "walk T ks1 = Some (Dict d) \<and> map_of d k = None \<and> rest \<noteq> [] \<and>
      keys_of path = ks1 @ k # rest"
  then show "recursive_replace ops T (path, v) in_place = Inr (finish in_place T T [])"
    using replace_step_absent_on_the_way[of T ks1 d k rest ops v "[]"]
    by (simp add: recursive_replace_def deepcopy_def)
next
  assume "walk T ks = Some (Dict d) \<and> map_of d k = None \<and> keys_of path = ks @ [k]"
  then show "recursive_replace ops T (path, v) in_place = Inl (KeyError (ks @ [k]))"
    using replace_step_absent_final[of T ks d k ops v "[]"]
    by (simp add: recursive_replace_def deepcopy_def)
next
  assume a: "walk T ks = Some (Dict d) \<and> map_of d k = Some old \<and> keys_of path = ks @ [k]"
  then show "recursive_replace ops T (path, v) in_place =
        Inr (finish in_place T (update_at T ks (Dict (AList.update k v d))) [])"
    using replace_step_present_final[of T ks d k old ops v "[]"]
    by (simp add: recursive_replace_def deepcopy_def)
  from a have "walk (update_at T ks (Dict (AList.update k v d))) ks
                 = Some (Dict (AList.update k v d))"
    by (simp add: walk_update_at)
  then show "walk (update_at T ks (Dict (AList.update k v d))) (ks @ [k]) = Some v"
    by (simp add: walk_append update_conv')
qed

theorem C7_replace_witness:
  "recursive_replace number_leaf T_example (PyTuple [5, 4], Leaf 4) False =
       Inr \<lparr>returned = Some T_example, argument = T_example, warnings = []\<rparr>
   \<and> recursive_replace number_leaf T_example (PyTuple [3, 6], Leaf 4) False = Inl (KeyError [3, 6])
   \<and> recursive_replace number_leaf T_example (PyTuple [3, 4], Leaf 4) False =
       Inr \<lparr>returned = Some (Dict [(1, Leaf 2), (3, Dict [(4, Leaf 4)]),
                                    (6, Dict [(3, Dict [(7, Leaf 8)]), (7, Leaf 10)]),
                                    (7, Leaf 11)]),
            argument = T_example, warnings = []\<rparr>"
proof -
  have w0: "walk T_example [] = Some T_example" by simp
  have w3: "walk T_example [3] = Some (Dict [(4, Leaf 5)])" by (simp add: T_example_def)
  have u: "update_at T_example [3] (Dict (AList.update 4 (Leaf 4) [(4, Leaf 5)])) =
             Dict [(1, Leaf 2), (3, Dict [(4, Leaf 4)]),
                   (6, Dict [(3, Dict [(7, Leaf 8)]), (7, Leaf 10)]), (7, Leaf 11)]"
    by (simp add: T_example_def)
  from C7_replace[where ops = number_leaf and T = T_example and ?ks1.0 = "[]" and k = 5 and rest = "[4]"
         and d = "[(1, Leaf 2), (3, Dict [(4, Leaf 5)]),
                   (6, Dict [(3, Dict [(7, Leaf 8)]), (7, Leaf 10)]), (7, Leaf 11)]"
         and path = "PyTuple [5, 4]" and v = "Leaf 4" and in_place = False]
       C7_replace[where ops = number_leaf and T = T_example and ks = "[3]" and k = 6 and d = "[(4, Leaf 5)]"
         and path = "PyTuple [3, 6]" and v = "Leaf 4" and in_place = False]
       C7_replace[where ops = number_leaf and T = T_example and ks = "[3]" and k = 4 and d = "[(4, Leaf 5)]"
         and old = "Leaf 5" and path = "PyTuple [3, 4]" and v = "Leaf 4" and in_place = False]
       w3 u
  show ?thesis by (simp add: finish_def T_example_def)
qed

text \<open>
  C10, as the specification states it: whenever a key before the last one of the path
  given to \<^verbatim>\<open>recursive_replace\<close> is present but leads to a leaf, the call raises
  \<^verbatim>\<open>TypeError\<close>. Not for every leaf: the step has no \<^verbatim>\<open>isinstance\<close> test, so it goes on
  inside a leaf that is a container. On \<^verbatim>\<open>{1: [5, 6]}\<close> the path \<open>(1, 0)\<close> with the
  value 9 returns \<^verbatim>\<open>{1: [9, 6]}\<close> and raises nothing, the path \<open>(1, 7, 0)\<close> changes
  nothing and raises nothing, and the path \<open>(1, 7)\<close> raises \<^verbatim>\<open>IndexError\<close>.
\<close>

theorem C10_replace_through_leaf_counterexample:
  "recursive_replace python_leaf (Dict [(1, Leaf (PList [Leaf (PInt 5), Leaf (PInt 6)]))])
       (PyTuple [1, 0], Leaf (PInt 9)) False =
     Inr \<lparr>returned = Some (Dict [(1, Leaf (PList [Leaf (PInt 9), Leaf (PInt 6)]))]),
          argument = Dict [(1, Leaf (PList [Leaf (PInt 5), Leaf (PInt 6)]))],
          warnings = []\<rparr>
   \<and> recursive_replace python_leaf (Dict [(1, Leaf (PList [Leaf (PInt 5), Leaf (PInt 6)]))])
       (PyTuple [1, 7, 0], Leaf (PInt 9)) False =
     Inr \<lparr>returned = Some (Dict [(1, Leaf (PList [Leaf (PInt 5), Leaf (PInt 6)]))]),
          argument = Dict [(1, Leaf (PList [Leaf (PInt 5), Leaf (PInt 6)]))],
          warnings = []\<rparr>
   \<and> recursive_replace python_leaf (Dict [(1, Leaf (PList [Leaf (PInt 5), Leaf (PInt 6)]))])
       (PyTuple [1, 7], Leaf (PInt 9)) False = Inl IndexError"
  by (simp add: recursive_replace_def deepcopy_def finish_def python_leaf_def py_index_def)

text \<open>
  C10, amended: when the keys \<open>ks1\<close> of the path given to \<^verbatim>\<open>recursive_replace\<close> lead
  to a leaf that is not a container (membership test and indexing raise \<^verbatim>\<open>TypeError\<close>
  on it, as on a number, a boolean or \<^verbatim>\<open>None\<close>) and keys are left, the call raises
  \<^verbatim>\<open>TypeError\<close> (from \<^verbatim>\<open>d[key]\<close> when one key is left, from \<^verbatim>\<open>key in d\<close> otherwise),
  not \<^verbatim>\<open>KeyError\<close>, and does not return; as on \<open>((1, 2), 9)\<close> with the example
  dictionary. \<^verbatim>\<open>recursive_remove\<close> in the same situation, whatever the leaf, raises
  nothing and changes nothing.
\<close>

theorem C10_replace_through_leaf:
  assumes "walk T ks1 = Some (Leaf x)" and "rest \<noteq> []" and "keys_of path = ks1 @ rest"
    and "not_a_container ops x"
  shows "recursive_replace ops T (path, v) in_place =
           Inl (TypeError (if length rest = 1 then Not_subscriptable else Not_iterable))
         \<and> recursive_remove T (path, v) in_place = Inr (finish in_place T T [])
         \<and> recursive_replace number_leaf T_example (PyTuple [1, 2], Leaf 9) False =
             Inl (TypeError Not_subscriptable)
         \<and> recursive_remove T_example (PyTuple [1, 2], Leaf 9) False =
             Inr \<lparr>returned = Some T_example, argument = T_example, warnings = []\<rparr>"
proof -
  have "recursive_replace ops T (path, v) in_place =
           Inl (TypeError (if length rest = 1 then Not_subscriptable else Not_iterable))"
    using replace_step_leaf_on_the_way[OF assms(1,2,4), of v "[]"] assms(3)
    by (simp add: recursive_replace_def deepcopy_def)
  moreover have "recursive_remove T (path, v) in_place = Inr (finish in_place T T [])"
    using remove_step_leaf_on_the_way[OF assms(1,2), of v "[]"] assms(3)
    by (simp add: recursive_remove_def deepcopy_def)
  moreover have "recursive_replace number_leaf T_example (PyTuple [1, 2], Leaf 9) False =
             Inl (TypeError Not_subscriptable)"
    by (simp add: recursive_replace_def deepcopy_def number_leaf_def T_example_def)
  moreover have "recursive_remove T_example (PyTuple [1, 2], Leaf 9) False =
             Inr \<lparr>returned = Some T_example, argument = T_example, warnings = []\<rparr>"
    by (simp add: recursive_remove_def deepcopy_def finish_def T_example_def)
  ultimately show ?thesis by simp
qed

theorem C10_replace_through_leaf_witness:
  "walk T_example [6, 7] = Some (Leaf 10)
   \<and> not_a_container (number_leaf :: (int, int, (int, int) tree) leaf_ops) 10
   \<and> recursive_replace number_leaf T_example (PyTuple [6, 7, 3, 4], Leaf 9) True =
       Inl (TypeError Not_iterable)
   \<and> recursive_remove T_example (PyTuple [6, 7, 3, 4], Leaf 9) True =
       Inr \<lparr>returned = None, argument = T_example, warnings = []\<rparr>"
proof -
  have w: "walk T_example [6, 7] = Some (Leaf 10)" by (simp add: T_example_def)
  have ne: "[3, 4 :: int] \<noteq> []" by simp
  have k: "keys_of (PyTuple [6, 7, 3, 4 :: int]) = [6, 7] @ [3, 4]" by simp
  have n: "not_a_container (number_leaf :: (int, int, (int, int) tree) leaf_ops) 10"
    by (simp add: not_a_container_def number_leaf_def)
  from C10_replace_through_leaf[OF w ne k n, of "Leaf 9" True] w n show ?thesis
    by (simp add: finish_def)
qed

subsection \<open>Filtering the leaves\<close>

lemma first_error_append:
  "first_error func p (xs @ ys) =
     (case first_error func p xs of Some e \<Rightarrow> Some e | None \<Rightarrow> first_error func p ys)"
  by (induction xs) (auto split: func_result.splits)

lemma in_sel_keys_present:
  "k \<in> fst ` set d \<Longrightarrow> in_sel_keys k keys d = selected k keys"
  by (cases "(k, keys)" rule: selected.cases) auto

lemma update_middle:
  "k \<notin> fst ` set done \<Longrightarrow> AList.update k x (done @ (k, y) # rest) = done @ (k, x) # rest"
  by (induction "done") auto

lemma delete_middle:
  "k \<notin> fst ` set done \<Longrightarrow> k \<notin> fst ` set rest \<Longrightarrow>
   AList.delete k (done @ (k, y) # rest) = done @ rest"
  by (induction "done") auto

lemma filter_items_spec:
  "wf_tree (Dict rest) \<Longrightarrow> distinct (map fst (done @ rest)) \<Longrightarrow>
   filter_items rest (done @ rest) func keys permissive =
     (case first_error func permissive (selected_leaves keys rest) of
        Some e \<Rightarrow> Inl e
      | None \<Rightarrow> Inr (done @ filter_spec func keys rest))"
proof (induction rest arbitrary: "done" rule: dict_induct)
  case Nil
  then show ?case by simp
next
  case (Leaf key x rest)
  from Leaf.prems have wf: "wf_tree (Dict rest)"
    and k1: "key \<notin> fst ` set done" and k2: "key \<notin> fst ` set rest"
    and d1: "distinct (map fst (done @ rest))"
    and d2: "distinct (map fst ((done @ [(key, Leaf x)]) @ rest))"
    by auto
  have sel: "in_sel_keys key keys (done @ (key, Leaf x) # rest) = selected key keys"
    by (rule in_sel_keys_present) simp
  note ih1 = Leaf.IH[OF wf d1] and ih2 = Leaf.IH[OF wf d2]
  show ?case
  proof (cases "selected key keys")
    case False
    with ih2 sel show ?thesis by (auto split: option.splits)
  next
    case True
    show ?thesis
    proof (cases "func x")
      case Raises
      with ih2 sel True show ?thesis by (auto split: option.splits)
    next
      case (Returns_bool b)
      with ih1 ih2 sel True show ?thesis
        by (cases b) (auto simp: delete_middle[OF k1 k2] split: option.splits)
    next
      case (Returns_other r)
      with sel True show ?thesis by simp
    qed
  qed
next
  case (Dict key d rest)
  from Dict.prems have wfd: "wf_tree (Dict d)" and wf: "wf_tree (Dict rest)"
    and k1: "key \<notin> fst ` set done" and dd: "distinct (map fst ([] @ d))"
    by auto
  have sub: "filter_step d func keys permissive =
     (case first_error func permissive (selected_leaves keys d) of
        Some e \<Rightarrow> Inl e
      | None \<Rightarrow> Inr (filter_spec func keys d))"
    using Dict.IH(1)[OF wfd dd] by (auto split: option.splits)
  show ?case
  proof (cases "first_error func permissive (selected_leaves keys d)")
    case (Some e)
    with sub show ?thesis by (simp add: first_error_append)
  next
    case None
    let ?v' = "filter_spec func keys d"
    from Dict.prems have d2: "distinct (map fst ((done @ [(key, Dict ?v')]) @ rest))"
      by auto
    from Dict.IH(2)[OF wf d2] None sub show ?thesis
      by (auto simp: first_error_append update_middle[OF k1] split: option.splits)
  qed
qed

lemma filter_step_spec:
  assumes "wf_tree (Dict d)"
  shows "filter_step d func keys permissive =
     (case first_error func permissive (selected_leaves keys d) of
        Some e \<Rightarrow> Inl e
      | None \<Rightarrow> Inr (filter_spec func keys d))"
proof -
  from assms have "distinct (map fst ([] @ d))" by simp
  from filter_items_spec[OF assms this, of func keys permissive]
  have "filter_items d d func keys permissive =
     (case first_error func permissive (selected_leaves keys d) of
        Some e \<Rightarrow> Inl e
      | None \<Rightarrow> Inr (filter_spec func keys d))"
    by (cases "first_error func permissive (selected_leaves keys d)") simp_all
  then show ?thesis by simp
qed

lemma first_error_all_bool:
  "\<forall>x \<in> set xs. \<exists>b. func x = Returns_bool b \<Longrightarrow> first_error func p xs = None"
  by (induction xs) auto

lemma first_error_non_bool:
  "\<forall>y \<in> set xs. \<exists>b. func y = Returns_bool b \<Longrightarrow> func x = Returns_other r \<Longrightarrow>
   first_error func p (xs @ x # ys) = Some (TypeError_must_return_bool r x)"
  by (induction xs) auto


text \<open>
  C9: \<^verbatim>\<open>recursive_filter_dict\<close> applies \<^verbatim>\<open>func\<close> to every leaf whose key is selected.
  When \<^verbatim>\<open>func\<close> returns a boolean for each of them, the result is the dictionary with
  exactly the selected leaves of value \<^verbatim>\<open>False\<close> deleted with their keys, every other
  leaf kept and every nested dictionary kept and filtered in the same way. When
  \<^verbatim>\<open>func\<close> returns something that is not a boolean for a selected leaf (and booleans
  for the selected leaves before it), the call fails with the \<^verbatim>\<open>TypeError\<close> that names
  the value returned and the leaf. Filtering \<^verbatim>\<open>{1: 2, 3: {4: 5}, 7: 2}\<close> with
  \<^verbatim>\<open>v > 4\<close> gives \<^verbatim>\<open>{3: {4: 5}}\<close>.
\<close>

theorem C9_filter:
  assumes "wf_tree (Dict d)"
  shows "((\<forall>x \<in> set (selected_leaves keys d). \<exists>b. func x = Returns_bool b) \<longrightarrow>
            recursive_filter_dict (Dict d) func keys in_place permissive =
              Inr (finish in_place (Dict d) (Dict (filter_spec func keys d)) []))
       \<and> (\<forall>xs x ys r. selected_leaves keys d = xs @ x # ys \<and>
              (\<forall>y \<in> set xs. \<exists>b. func y = Returns_bool b) \<and> func x = Returns_other r \<longrightarrow>
            recursive_filter_dict (Dict d) func keys in_place permissive =
              Inl (TypeError_must_return_bool r x))
       \<and> recursive_filter_dict (Dict [(1, Leaf 2), (3, Dict [(4, Leaf 5)]), (7, Leaf 2)])
            (\<lambda>v :: int. (Returns_bool (v > 4) :: unit func_result)) None False False =
            Inr \<lparr>returned = Some (Dict [(3 :: int, Dict [(4, Leaf 5)])]),
                 argument = Dict [(1, Leaf 2), (3, Dict [(4, Leaf 5)]), (7, Leaf 2)],
                 warnings = []\<rparr>"
proof -
  have step: "filter_step d func keys permissive =
     (case first_error func permissive (selected_leaves keys d) of
        Some e \<Rightarrow> Inl e
      | None \<Rightarrow> Inr (filter_spec func keys d))"
    by (rule filter_step_spec[OF assms])
  have a: "(\<forall>x \<in> set (selected_leaves keys d). \<exists>b. func x = Returns_bool b) \<longrightarrow>
            recursive_filter_dict (Dict d) func keys in_place permissive =
              Inr (finish in_place (Dict d) (Dict (filter_spec func keys d)) [])"
    by (simp add: recursive_filter_dict_def deepcopy_def step first_error_all_bool
          del: filter_step.simps)
  have b: "\<forall>xs x ys r. selected_leaves keys d = xs @ x # ys \<and>
              (\<forall>y \<in> set xs. \<exists>b. func y = Returns_bool b) \<and> func x = Returns_other r \<longrightarrow>
            recursive_filter_dict (Dict d) func keys in_place permissive =
              Inl (TypeError_must_return_bool r x)"
    by (simp add: recursive_filter_dict_def deepcopy_def step first_error_non_bool
          del: filter_step.simps)
  have c: "recursive_filter_dict (Dict [(1, Leaf 2), (3, Dict [(4, Leaf 5)]), (7, Leaf 2)])
            (\<lambda>v :: int. (Returns_bool (v > 4) :: unit func_result)) None False False =
            Inr \<lparr>returned = Some (Dict [(3 :: int, Dict [(4, Leaf 5)])]),
                 argument = Dict [(1, Leaf 2), (3, Dict [(4, Leaf 5)]), (7, Leaf 2)],
                 warnings = []\<rparr>"
    by (simp add: recursive_filter_dict_def deepcopy_def finish_def)
  from a b c show ?thesis by blast
qed

theorem C9_filter_witness:
  "wf_tree (Dict [(1 :: int, Leaf (2 :: int)), (3, Dict [(4, Leaf 5)]), (7, Leaf 2)])
   \<and> recursive_filter_dict (Dict [(1 :: int, Leaf (2 :: int)), (3, Dict [(4, Leaf 5)]), (7, Leaf 2)])
        (\<lambda>v. (Returns_bool (v > 4) :: int func_result)) (Some [7, 4]) True False =
        Inr \<lparr>returned = None,
             argument = Dict [(1, Leaf 2), (3, Dict [(4, Leaf 5)])], warnings = []\<rparr>
   \<and> recursive_filter_dict (Dict [(1 :: int, Leaf (2 :: int)), (3, Dict [(4, Leaf 5)]), (7, Leaf 2)])
        (\<lambda>v. if v > 4 then Returns_other (v + 1) else Returns_bool False) None False False =
        Inl (TypeError_must_return_bool 6 5)"
proof -
  let ?d = "[(1 :: int, Leaf (2 :: int)), (3, Dict [(4, Leaf 5)]), (7, Leaf 2)]"
  let ?f = "\<lambda>v :: int. if v > 4 then Returns_other (v + 1) else Returns_bool False"
  have wf: "wf_tree (Dict ?d)" by simp
  have l1: "selected_leaves (Some [7, 4]) ?d = [5, 2]" by simp
  have l2: "selected_leaves None ?d = [2] @ 5 # [2]" by simp
  have a: "recursive_filter_dict (Dict ?d)
        (\<lambda>v. (Returns_bool (v > 4) :: int func_result)) (Some [7, 4]) True False =
        Inr \<lparr>returned = None,
             argument = Dict [(1, Leaf 2), (3, Dict [(4, Leaf 5)])], warnings = []\<rparr>"
    using C9_filter[OF wf, of "Some [7, 4]" "\<lambda>v. (Returns_bool (v > 4) :: int func_result)"
         True False] l1
    by (simp add: finish_def)
  have b: "recursive_filter_dict (Dict ?d) ?f None False False =
        Inl (TypeError_must_return_bool 6 5)"
    by (rule C9_filter[OF wf, of None ?f False False, THEN conjunct2, THEN conjunct1,
          rule_format, of "[2]" 5 "[2]" 6]) (auto simp: l2)
  from wf a b show ?thesis by simp
qed


subsection \<open>Sharing between a merged dictionary and its inputs\<close>

text \<open>
  C4: \<^verbatim>\<open>recursive_merge_dicts\<close> returns a dictionary that shares nothing with its inputs
  and leaves them unchanged; merging \<^verbatim>\<open>{1: 2, 3: {4: 5}}\<close> with \<^verbatim>\<open>{3: {17: 18}}\<close> does
  not put the key 17 into the first input. The code does: the pair \<open>([3], {4: 5})\<close>
  carries the inner dictionary of the first input itself (the object 0), which becomes
  \<^verbatim>\<open>merged_d[3]\<close>, and the pair \<open>([3, 17], 18)\<close> of the second input is then added to
  that object. After the call the first input reads \<^verbatim>\<open>{1: 2, 3: {4: 5, 17: 18}}\<close>, and
  the dictionary returned (the object 6) holds the object 0 of the first input.
\<close>

theorem C4_merge_mutates_input:
  "tree_of 5 merge_store (Ref 1) = Some (Dict [(1, Leaf 2), (3, Dict [(4, Leaf 5)])])
   \<and> tree_of 5 merge_store (Ref 3) = Some (Dict [(3, Dict [(17, Leaf 18)])])
   \<and> s_recursive_merge_dicts 5 merge_store [Ref 1, Ref 3] =
       Some (Inr (Ref 6),
             [[(4, Atom 5), (17, Atom 18)], [(1, Atom 2), (3, Ref 0)],
              [(17, Atom 18)], [(3, Ref 2)], [(1, Atom 2), (3, Ref 0)], [(4, Atom 5)],
              [(1, Atom 2), (3, Ref 0)]],
             [])
   \<and> tree_of 5 [[(4, Atom 5), (17, Atom 18)], [(1, Atom 2), (3, Ref 0)],
              [(17, Atom 18)], [(3, Ref 2)], [(1, Atom 2), (3, Ref 0)], [(4, Atom 5)],
              [(1 :: int, Atom (2 :: int)), (3, Ref 0)]] (Ref 1) =
       Some (Dict [(1 :: int, Leaf 2), (3, Dict [(4, Leaf 5), (17, Leaf (18 :: int))])])"
  by code_simp


subsection \<open>What a call that is not in place leaves unchanged\<close>

lemma unchanged_below_refl: "unchanged_below m h h"
  by (simp add: unchanged_below_def)

lemma unchanged_below_trans:
  "unchanged_below m h h1 \<Longrightarrow> unchanged_below m h1 h2 \<Longrightarrow> unchanged_below m h h2"
  by (simp add: unchanged_below_def)

lemma unchanged_below_le:
  "unchanged_below m h h' \<Longrightarrow> m' \<le> m \<Longrightarrow> unchanged_below m' h h'"
  by (simp add: unchanged_below_def)

lemma unchanged_below_append: "m \<le> length h \<Longrightarrow> unchanged_below m h (h @ ext)"
  by (simp add: unchanged_below_def nth_append)

lemma unchanged_below_take:
  "unchanged_below (length h) h h' \<Longrightarrow> take (length h) h' = h"
  by (rule nth_equalityI) (auto simp: unchanged_below_def)

lemma local_change_refl: "local_change m h h"
  by (simp add: local_change_def)

lemma local_change_trans:
  "local_change m h h1 \<Longrightarrow> local_change m h1 h2 \<Longrightarrow> local_change m h h2"
  by (simp add: local_change_def)

lemma local_change_unchanged: "local_change m h h' \<Longrightarrow> unchanged_below m h h'"
  by (simp add: local_change_def unchanged_below_def)

lemma local_change_update:
  assumes "m \<le> d" and "d < length h"
    and "\<forall>k b. (k, Ref b) \<in> set obj \<longrightarrow> (k, Ref b) \<in> set (h ! d)"
  shows "local_change m h (h[d := obj])"
  using assms by (auto simp: local_change_def nth_list_update)

lemma valid_ref_mono:
  "valid_ref m h v \<Longrightarrow> m' \<le> m \<Longrightarrow> length h \<le> length h' \<Longrightarrow> valid_ref m' h' v"
  by (cases v) (auto simp: valid_ref_def)

lemma closed_from_local_change:
  assumes "closed_from m h" and "local_change m h h'"
  shows "closed_from m h'"
  unfolding closed_from_def
proof (intro allI impI ballI)
  fix a x assume a: "m \<le> a \<and> a < length h'" and x: "x \<in> set (h' ! a)"
  obtain k v where kv: "x = (k, v)" by (cases x)
  from assms(2) have len: "length h' = length h" by (simp add: local_change_def)
  show "case x of (k, v) \<Rightarrow> valid_ref m h' v"
  proof (cases v)
    case (Atom y)
    then show ?thesis by (simp add: kv valid_ref_def)
  next
    case (Ref b)
    with x kv a len assms(2) have "(k, Ref b) \<in> set (h ! a)"
      by (auto simp: local_change_def)
    with assms(1) a len have "valid_ref m h (Ref b)"
      by (auto simp: closed_from_def)
    then show ?thesis by (simp add: kv Ref valid_ref_def len)
  qed
qed

lemma closed_from_append:
  assumes "closed_from m h" and "\<forall>(k, v) \<in> set obj. valid_ref m (h @ [obj]) v"
  shows "closed_from m (h @ [obj])"
  unfolding closed_from_def
proof (intro allI impI ballI)
  fix a x assume a: "m \<le> a \<and> a < length (h @ [obj])" and x: "x \<in> set ((h @ [obj]) ! a)"
  show "case x of (k, v) \<Rightarrow> valid_ref m (h @ [obj]) v"
  proof (cases "a < length h")
    case True
    with x have "x \<in> set (h ! a)" by (simp add: nth_append)
    with assms(1) a True have "case x of (k, v) \<Rightarrow> valid_ref m h v"
      by (auto simp: closed_from_def)
    then show ?thesis by (auto intro: valid_ref_mono)
  next
    case False
    with a have "a = length h" by simp
    with x assms(2) show ?thesis by auto
  qed
qed

lemma closed_from_entry:
  "closed_from m h \<Longrightarrow> m \<le> a \<Longrightarrow> a < length h \<Longrightarrow> (k, v) \<in> set (h ! a) \<Longrightarrow> valid_ref m h v"
  by (auto simp: closed_from_def)

lemma s_deepcopy_frame:
  "s_deepcopy n h v = Some (v', h') \<Longrightarrow>
     unchanged_below (length h) h h' \<and> valid_ref (length h) h' v' \<and>
     (\<forall>m \<le> length h. closed_from m h \<longrightarrow> closed_from m h')"
  "s_deepcopy_items n h items = Some (items', h') \<Longrightarrow>
     unchanged_below (length h) h h' \<and> (\<forall>(k, v) \<in> set items'. valid_ref (length h) h' v) \<and>
     (\<forall>m \<le> length h. closed_from m h \<longrightarrow> closed_from m h')"
proof (induction n h v and n h items arbitrary: v' h' and items' h'
       rule: s_deepcopy_s_deepcopy_items.induct)
  case (1 n h x)
  then show ?case by (auto simp: unchanged_below_refl valid_ref_def)
next
  case (2 h a)
  then show ?case by simp
next
  case (3 n h a)
  from "3.prems" obtain items h1 where c: "s_deepcopy_items n h (h ! a) = Some (items, h1)"
    and v': "v' = Ref (length h1)" and h': "h' = h1 @ [items]"
    by (auto split: option.splits)
  from "3.IH"[OF c] have u: "unchanged_below (length h) h h1"
    and it: "\<forall>(k, v) \<in> set items. valid_ref (length h) h1 v"
    and cl: "\<forall>m \<le> length h. closed_from m h \<longrightarrow> closed_from m h1"
    by auto
  from u have len: "length h \<le> length h1" by (simp add: unchanged_below_def)
  have 1: "unchanged_below (length h) h h'"
    using u unchanged_below_append[of "length h" h1 "[items]"] len
    by (auto simp: h' intro: unchanged_below_trans)
  have 2: "valid_ref (length h) h' v'"
    using len by (simp add: v' h' valid_ref_def)
  have 3: "closed_from m h'" if m: "m \<le> length h" and c0: "closed_from m h" for m
  proof -
    from cl m c0 have "closed_from m h1" by simp
    moreover have "\<forall>(k, v) \<in> set items. valid_ref m (h1 @ [items]) v"
      using it m by (auto intro: valid_ref_mono)
    ultimately show ?thesis unfolding h' by (rule closed_from_append)
  qed
  from 1 2 3 show ?case by blast
next
  case (4 n h)
  then show ?case by (auto simp: unchanged_below_refl)
next
  case (5 n h k v rest)
  from "5.prems" obtain w h1 rest' where c1: "s_deepcopy n h v = Some (w, h1)"
    and c2: "s_deepcopy_items n h1 rest = Some (rest', h')"
    and items': "items' = (k, w) # rest'"
    by (auto split: option.splits)
  from "5.IH"(1)[OF c1] have u1: "unchanged_below (length h) h h1"
    and v1: "valid_ref (length h) h1 w"
    and cl1: "\<forall>m \<le> length h. closed_from m h \<longrightarrow> closed_from m h1"
    by auto
  from "5.IH"(2)[OF c1 refl c2] have u2: "unchanged_below (length h1) h1 h'"
    and v2: "\<forall>(k, v) \<in> set rest'. valid_ref (length h1) h' v"
    and cl2: "\<forall>m \<le> length h1. closed_from m h1 \<longrightarrow> closed_from m h'"
    by auto
  from u1 have len1: "length h \<le> length h1" by (simp add: unchanged_below_def)
  from u2 have len2: "length h1 \<le> length h'" by (simp add: unchanged_below_def)
  have 1: "unchanged_below (length h) h h'"
    using u1 unchanged_below_le[OF u2 len1] by (rule unchanged_below_trans)
  have 2: "\<forall>(k, v) \<in> set items'. valid_ref (length h) h' v"
    using v1 v2 len1 len2 by (auto simp: items' intro: valid_ref_mono)
  have 3: "\<forall>m \<le> length h. closed_from m h \<longrightarrow> closed_from m h'"
    using cl1 cl2 len1 by auto
  from 1 2 3 show ?case by blast
qed

lemma tree_of_unchanged:
  "tree_of n h v = Some T \<Longrightarrow> unchanged_below (length h) h h' \<Longrightarrow> tree_of n h' v = Some T"
  "items_of n h items = Some ts \<Longrightarrow> unchanged_below (length h) h h' \<Longrightarrow>
     items_of n h' items = Some ts"
proof (induction n h v and n h items arbitrary: T and ts rule: tree_of_items_of.induct)
  case (1 n h x)
  then show ?case by simp
next
  case (2 h a)
  then show ?case by simp
next
  case (3 n h a)
  from "3.prems"(1) have a: "a < length h" by (auto split: if_splits)
  with "3.prems"(2) have eq: "h' ! a = h ! a" and a': "a < length h'"
    by (auto simp: unchanged_below_def)
  from "3.prems"(1) a obtain ts where ts: "items_of n h (h ! a) = Some ts" and T: "T = Dict ts"
    by auto
  from "3.IH"[OF a ts "3.prems"(2)] show ?case by (simp add: a' eq T)
next
  case (4 n h)
  then show ?case by simp
next
  case (5 n h k v rest)
  from "5.prems"(1) obtain t ts' where t: "tree_of n h v = Some t"
    and r: "items_of n h rest = Some ts'" and ts: "ts = (k, t) # ts'"
    by (auto split: option.splits)
  from "5.IH"(1)[OF t "5.prems"(2)] "5.IH"(2)[OF t r "5.prems"(2)]
  show ?case by (simp add: ts)
qed

lemma s_deepcopy_total:
  "tree_of n h v = Some T \<Longrightarrow>
     \<exists>v' h'. s_deepcopy n h v = Some (v', h') \<and> tree_of n h' v' = Some T"
  "items_of n h items = Some ts \<Longrightarrow>
     \<exists>items' h'. s_deepcopy_items n h items = Some (items', h') \<and> items_of n h' items' = Some ts"
proof (induction n h v and n h items arbitrary: T and ts
       rule: s_deepcopy_s_deepcopy_items.induct)
  case (1 n h x)
  then show ?case by simp
next
  case (2 h a)
  then show ?case by simp
next
  case (3 n h a)
  from "3.prems" obtain ts where ts: "items_of n h (h ! a) = Some ts" and T: "T = Dict ts"
    by (auto split: if_splits)
  from "3.IH"[OF ts] obtain items' h1 where
    c: "s_deepcopy_items n h (h ! a) = Some (items', h1)"
    and r: "items_of n h1 items' = Some ts" by blast
  have "items_of n (h1 @ [items']) items' = Some ts"
    by (rule tree_of_unchanged(2)[OF r]) (simp add: unchanged_below_append)
  then show ?case by (simp add: c T)
next
  case (4 n h)
  then show ?case by simp
next
  case (5 n h k v rest)
  from "5.prems" obtain t ts' where t: "tree_of n h v = Some t"
    and r: "items_of n h rest = Some ts'" and ts: "ts = (k, t) # ts'"
    by (auto split: option.splits)
  from "5.IH"(1)[OF t] obtain w h1 where c1: "s_deepcopy n h v = Some (w, h1)"
    and t1: "tree_of n h1 w = Some t" by blast
  from s_deepcopy_frame(1)[OF c1] have u1: "unchanged_below (length h) h h1" by simp
  from tree_of_unchanged(2)[OF r u1] have r1: "items_of n h1 rest = Some ts'" .
  from "5.IH"(2)[OF c1 refl r1] obtain rest' h2 where
    c2: "s_deepcopy_items n h1 rest = Some (rest', h2)"
    and r2: "items_of n h2 rest' = Some ts'" by blast
  from s_deepcopy_frame(2)[OF c2] have u2: "unchanged_below (length h1) h1 h2" by simp
  from tree_of_unchanged(1)[OF t1 u2] have "tree_of n h2 w = Some t" .
  with c1 c2 r2 show ?case by (simp add: ts)
qed

lemma tree_of_readable:
  "tree_of n h v = Some T \<Longrightarrow> readable n h v"
  "items_of n h items = Some ts \<Longrightarrow> \<forall>(k, v) \<in> set items. readable n h v"
proof (induction n h v and n h items arbitrary: T and ts rule: tree_of_items_of.induct)
  case (3 n h a)
  from "3.prems" have a: "a < length h" by (auto split: if_splits)
  with "3.prems" obtain ts where ts: "items_of n h (h ! a) = Some ts" by auto
  from "3.IH"[OF a ts] a show ?case by simp
next
  case (5 n h k v rest)
  from "5.prems"(1) obtain t ts' where t: "tree_of n h v = Some t"
    and r: "items_of n h rest = Some ts'"
    by (auto split: option.splits)
  from "5.IH"(1)[OF t] "5.IH"(2)[OF t r] show ?case by simp
qed simp_all

lemma readable_tree_of:
  "readable n h v \<Longrightarrow> \<exists>T. tree_of n h v = Some T"
  "\<forall>(k, v) \<in> set items. readable n h v \<Longrightarrow> \<exists>ts. items_of n h items = Some ts"
proof (induction n h v and n h items rule: tree_of_items_of.induct)
  case (3 n h a)
  then show ?case by auto
next
  case (5 n h k v rest)
  from "5.prems" have "readable n h v" by simp
  from "5.IH"(1)[OF this] obtain t where t: "tree_of n h v = Some t" by blast
  from "5.IH"(2)[OF t] "5.prems" obtain ts where "items_of n h rest = Some ts" by auto
  with t show ?case by simp
qed simp_all

lemma readable_local_change:
  "local_change m h h' \<Longrightarrow> readable n h v \<Longrightarrow> readable n h' v"
proof (induction n arbitrary: v)
  case 0
  then show ?case by (cases v) simp_all
next
  case (Suc n)
  show ?case
  proof (cases v)
    case (Atom x)
    then show ?thesis by simp
  next
    case (Ref a)
    from Suc.prems(2) Ref have a: "a < length h"
      and all: "\<forall>(k, w) \<in> set (h ! a). readable n h w" by auto
    from Suc.prems(1) have len: "length h' = length h" by (simp add: local_change_def)
    have "readable n h' w" if kw: "(k, w) \<in> set (h' ! a)" for k w
    proof (cases w)
      case (Atom x)
      then show ?thesis by simp
    next
      case (Ref b)
      with kw Suc.prems(1) a have "(k, Ref b) \<in> set (h ! a)" by (auto simp: local_change_def)
      with all have "readable n h (Ref b)" by auto
      from Suc.IH[OF Suc.prems(1) this] Ref show ?thesis by simp
    qed
    with a len Ref show ?thesis by auto
  qed
qed

lemma readable_Suc: "readable n h v \<Longrightarrow> readable (Suc n) h v"
proof (induction n arbitrary: v)
  case 0
  then show ?case by (cases v) simp_all
next
  case (Suc n)
  then show ?case by (cases v) auto
qed

lemma readable_Ref_valid: "readable n h (Ref a) \<Longrightarrow> a < length h"
  by (cases n) simp_all

lemma update_Ref_subset:
  "(k', Ref b) \<in> set (AList.update k v al) \<Longrightarrow> (k', Ref b) \<in> set al \<or> (k', Ref b) = (k, v)"
  by (induction al) (auto split: if_splits)

lemma delete_subset: "x \<in> set (AList.delete k al) \<Longrightarrow> x \<in> set al"
  by (induction al) (auto split: if_splits)

lemma closed_from_create:
  assumes cl: "closed_from m h" and d: "m \<le> d" "d < length h"
  shows "closed_from m ((h @ [[]])[d := AList.update k (Ref (length h)) (h ! d)])"
  unfolding closed_from_def
proof (intro allI impI ballI)
  let ?h1 = "(h @ [[]])[d := AList.update k (Ref (length h)) (h ! d)]"
  fix a x assume a: "m \<le> a \<and> a < length ?h1" and x: "x \<in> set (?h1 ! a)"
  obtain k' v where kv: "x = (k', v)" by (cases x)
  have len: "length ?h1 = Suc (length h)" by simp
  show "case x of (k, v) \<Rightarrow> valid_ref m ?h1 v"
  proof (cases v)
    case (Atom y)
    then show ?thesis by (simp add: kv valid_ref_def)
  next
    case (Ref b)
    have "m \<le> b \<and> b < Suc (length h)"
    proof (cases "a = d")
      case True
      with x kv Ref d have "(k', Ref b) \<in> set (AList.update k (Ref (length h)) (h ! d))"
        by (simp add: nth_append)
      from update_Ref_subset[OF this] show ?thesis
      proof
        assume "(k', Ref b) \<in> set (h ! d)"
        from closed_from_entry[OF cl d this] show ?thesis by (simp add: valid_ref_def)
      next
        assume "(k', Ref b) = (k, Ref (length h))"
        with d show ?thesis by simp
      qed
    next
      case False
      show ?thesis
      proof (cases "a < length h")
        case True
        with x kv Ref False have "(k', Ref b) \<in> set (h ! a)" by (simp add: nth_append)
        from closed_from_entry[OF cl _ True this] a show ?thesis by (simp add: valid_ref_def)
      next
        case False
        with a have "a = length h" by simp
        with x d show ?thesis by (simp add: nth_append)
      qed
    qed
    then show ?thesis by (simp add: kv Ref valid_ref_def)
  qed
qed

lemma unchanged_below_create:
  "m \<le> d \<Longrightarrow> d < length h \<Longrightarrow> unchanged_below m h ((h @ [[]])[d := obj])"
  by (auto simp: unchanged_below_def nth_list_update nth_append)

lemma unchanged_below_update: "m \<le> d \<Longrightarrow> unchanged_below m h (h[d := obj])"
  by (auto simp: unchanged_below_def nth_list_update)

lemma s_add_step_frame:
  "closed_from m h \<Longrightarrow> valid_ref m h d \<Longrightarrow> s_add_step h d key_path val init = (e, h', w) \<Longrightarrow>
   unchanged_below m h h'"
proof (induction h d key_path val init arbitrary: e h' w rule: s_add_step.induct)
  case (1 h x key_path val init_key_path)
  then show ?case by (simp add: unchanged_below_refl)
next
  case (2 h d val init_key_path)
  then show ?case by (simp add: unchanged_below_refl)
next
  case (3 h d k val init_key_path)
  then show ?case by (auto simp: valid_ref_def intro: unchanged_below_update)
next
  case (4 h d k k' ks val init_key_path)
  from "4.prems"(2) have d: "m \<le> d" "d < length h" by (simp_all add: valid_ref_def)
  show ?case
  proof (cases "map_of (h ! d) k")
    case None
    let ?h1 = "(h @ [[]])[d := AList.update k (Ref (length h)) (h ! d)]"
    have cl: "closed_from m ?h1" by (rule closed_from_create[OF "4.prems"(1) d])
    have v: "valid_ref m ?h1 (Ref (length h))" using d by (simp add: valid_ref_def)
    from "4.prems"(3) None have "s_add_step ?h1 (Ref (length h)) (k' # ks) val init_key_path = (e, h', w)"
      by simp
    from "4.IH"(1)[OF None cl v this] have "unchanged_below m ?h1 h'" .
    with unchanged_below_create[OF d] show ?thesis by (rule unchanged_below_trans)
  next
    case (Some sub)
    then have "(k, sub) \<in> set (h ! d)" by (rule map_of_SomeD)
    from closed_from_entry[OF "4.prems"(1) d this] have v: "valid_ref m h sub" .
    from "4.prems"(3) Some have "s_add_step h sub (k' # ks) val init_key_path = (e, h', w)"
      by simp
    from "4.IH"(2)[OF Some "4.prems"(1) v this] show ?thesis .
  qed
qed

lemma s_replace_step_Ref:
  "s_replace_step ops h (Ref d) key_path val kpl = (e, h', d') \<Longrightarrow> d' = Ref d"
  by (cases "(ops, h, Ref d :: 'b pyval, key_path, val, kpl)" rule: s_replace_step.cases)
     (auto split: option.splits prod.splits)

lemma s_replace_step_frame:
  "closed_from m h \<Longrightarrow> valid_ref m h d \<Longrightarrow>
   s_replace_step ops h d key_path val kpl = (e, h', d') \<Longrightarrow> unchanged_below m h h'"
proof (induction ops h d key_path val kpl arbitrary: e h' d' rule: s_replace_step.induct)
  case (1 ops h x key_path val key_path_list)
  then show ?case by (auto simp: unchanged_below_refl split: sum.splits)
next
  case (2 ops h d val key_path_list)
  then show ?case by (simp add: unchanged_below_refl)
next
  case (3 ops h d k val key_path_list)
  then show ?case
    by (auto simp: valid_ref_def unchanged_below_refl split: option.splits
             intro: unchanged_below_update)
next
  case (4 ops h d k k' ks val key_path_list)
  from "4.prems"(2) have d: "m \<le> d" "d < length h" by (simp_all add: valid_ref_def)
  show ?case
  proof (cases "map_of (h ! d) k")
    case None
    with "4.prems"(3) show ?thesis by (simp add: unchanged_below_refl)
  next
    case (Some sub)
    then have "(k, sub) \<in> set (h ! d)" by (rule map_of_SomeD)
    from closed_from_entry[OF "4.prems"(1) d this] have v: "valid_ref m h sub" .
    obtain e1 h1 sub' where
      r: "s_replace_step ops h sub (k' # ks) val (key_path_list @ [k]) = (e1, h1, sub')"
      by (metis prod_cases3)
    from "4.IH"[OF Some "4.prems"(1) v r] have u1: "unchanged_below m h h1" .
    show ?thesis
    proof (cases e1)
      case None
      with "4.prems"(3) Some r have "h' = h1[d := AList.update k sub' (h1 ! d)]" by simp
      with unchanged_below_update[OF d(1), of h1] have "unchanged_below m h1 h'" by simp
      with u1 show ?thesis by (rule unchanged_below_trans)
    next
      case (Some err)
      with "4.prems"(3) \<open>map_of (h ! d) k = Some sub\<close> r have "h' = h1" by simp
      with u1 show ?thesis by simp
    qed
  qed
qed

lemma readable_entry:
  "readable n h (Ref d) \<Longrightarrow> (k, v) \<in> set (h ! d) \<Longrightarrow> readable n h v"
proof (cases n)
  case 0
  assume "readable n h (Ref d)"
  with 0 show ?thesis by simp
next
  case (Suc n')
  assume "readable n h (Ref d)" and "(k, v) \<in> set (h ! d)"
  with Suc have "readable n' h v" by auto
  with Suc show ?thesis by (simp add: readable_Suc)
qed

lemma s_remove_step_ok:
  "closed_from m h \<Longrightarrow> valid_ref m h d \<Longrightarrow> readable n h d \<Longrightarrow> readable n h val \<Longrightarrow>
   \<exists>e h'. s_remove_step n h d key_path val kpl = Some (e, h') \<and> unchanged_below m h h'"
proof (induction n h d key_path val kpl rule: s_remove_step.induct)
  case (1 n h x key_path val key_path_list)
  then show ?case by (simp add: unchanged_below_refl)
next
  case (2 n h d val key_path_list)
  then show ?case by (simp add: unchanged_below_refl)
next
  case (3 n h d k val key_path_list)
  from "3.prems"(2) have d: "m \<le> d" "d < length h" by (simp_all add: valid_ref_def)
  show ?case
  proof (cases "map_of (h ! d) k")
    case None
    then show ?thesis by (simp add: unchanged_below_refl)
  next
    case (Some found)
    then have "(k, found) \<in> set (h ! d)" by (rule map_of_SomeD)
    from readable_entry[OF "3.prems"(3) this] have "readable n h found" .
    from readable_tree_of(1)[OF this] readable_tree_of(1)[OF "3.prems"(4)]
    obtain t u where "tree_of n h found = Some t" "tree_of n h val = Some u" by blast
    then have "s_py_eq n h found val = Some (py_eq t u)" by (simp add: s_py_eq_def)
    with Some d show ?thesis
      by (auto simp: unchanged_below_refl intro: unchanged_below_update)
  qed
next
  case (4 n h d k k' ks val key_path_list)
  from "4.prems"(2) have d: "m \<le> d" "d < length h" by (simp_all add: valid_ref_def)
  show ?case
  proof (cases "map_of (h ! d) k")
    case None
    then show ?thesis by (simp add: unchanged_below_refl)
  next
    case (Some sub)
    then have in_d: "(k, sub) \<in> set (h ! d)" by (rule map_of_SomeD)
    from closed_from_entry[OF "4.prems"(1) d in_d] have v: "valid_ref m h sub" .
    from readable_entry[OF "4.prems"(3) in_d] have r: "readable n h sub" .
    from "4.IH"[OF Some "4.prems"(1) v r "4.prems"(4)] Some show ?thesis by simp
  qed
qed

lemma s_filter_ok:
  "closed_from m h \<Longrightarrow> m \<le> d \<Longrightarrow> readable n h (Ref d) \<Longrightarrow>
     \<exists>e h'. s_filter_step n h d func keys p = Some (e, h') \<and> local_change m h h'"
  "closed_from m h \<Longrightarrow> m \<le> d \<Longrightarrow> d < length h \<Longrightarrow>
     \<forall>(k, v) \<in> set items. readable n h v \<and> valid_ref m h v \<Longrightarrow>
     \<exists>e h'. s_filter_items n h items d func keys p = Some (e, h') \<and> local_change m h h'"
proof (induction n h d func keys p and n h items d func keys p
       rule: s_filter_step_s_filter_items.induct)
  case (1 h d func keys permissive)
  then show ?case by simp
next
  case (2 n h d func keys permissive)
  from "2.prems"(3) have d: "d < length h" and r: "\<forall>(k, v) \<in> set (h ! d). readable n h v"
    by auto
  have "\<forall>(k, v) \<in> set (h ! d). readable n h v \<and> valid_ref m h v"
    using r closed_from_entry[OF "2.prems"(1,2) d] by auto
  from "2.IH"[OF "2.prems"(1,2) d this] show ?case by simp
next
  case (3 n h d func keys permissive)
  then show ?case by (simp add: local_change_refl)
next
  case (4 n h k v rest d func keys permissive)
  from "4.prems"(4) have rv: "readable n h (Ref v)" and vv: "m \<le> v"
    and rest: "\<forall>(k, v) \<in> set rest. readable n h v \<and> valid_ref m h v"
    by (auto simp: valid_ref_def)
  from "4.IH"(1)[OF "4.prems"(1) vv rv] obtain e h1 where
    s: "s_filter_step n h v func keys permissive = Some (e, h1)"
    and lc: "local_change m h h1" by blast
  show ?case
  proof (cases e)
    case (Some err)
    with s lc show ?thesis by auto
  next
    case None
    from lc have len: "length h1 = length h" by (simp add: local_change_def)
    have cl1: "closed_from m h1" by (rule closed_from_local_change[OF "4.prems"(1) lc])
    have rest1: "\<forall>(k, v) \<in> set rest. readable n h1 v \<and> valid_ref m h1 v"
      using rest readable_local_change[OF lc] len
      by (auto simp: valid_ref_def split: pyval.splits)
    from "4.IH"(2)[OF s refl None cl1 "4.prems"(2) _ rest1] "4.prems"(3) len
    obtain e' h' where "s_filter_items n h1 rest d func keys permissive = Some (e', h')"
      and "local_change m h1 h'" by auto
    with s None lc show ?thesis by (auto intro: local_change_trans)
  qed
next
  case (5 n h k v rest d func keys permissive)
  from "5.prems"(4) have rest: "\<forall>(k, v) \<in> set rest. readable n h v \<and> valid_ref m h v"
    by auto
  note same = "5.prems"(1,2,3) rest
  let ?h1 = "h[d := AList.delete k (h ! d)]"
  have lc: "local_change m h ?h1"
    by (rule local_change_update[OF "5.prems"(2,3)]) (auto dest: delete_subset)
  have cl1: "closed_from m ?h1" by (rule closed_from_local_change[OF "5.prems"(1) lc])
  have rest1: "\<forall>(k, v) \<in> set rest. readable n ?h1 v \<and> valid_ref m ?h1 v"
    using rest readable_local_change[OF lc]
    by (auto simp: valid_ref_def split: pyval.splits)
  have d1: "d < length ?h1" using "5.prems"(3) by simp
  show ?case
  proof (cases "in_sel_keys k keys (h ! d)")
    case False
    with "5.IH"(4)[OF False same] show ?thesis by simp
  next
    case True
    show ?thesis
    proof (cases "func v")
      case Raises
      show ?thesis
      proof (cases permissive)
        case True
        with "5.IH"(1)[OF \<open>in_sel_keys k keys (h ! d)\<close> Raises _ same] Raises
          \<open>in_sel_keys k keys (h ! d)\<close>
        show ?thesis by simp
      next
        case False
        with Raises \<open>in_sel_keys k keys (h ! d)\<close> show ?thesis
          by (simp add: local_change_refl)
      qed
    next
      case (Returns_bool b)
      show ?thesis
      proof (cases b)
        case True
        with "5.IH"(3)[OF \<open>in_sel_keys k keys (h ! d)\<close> Returns_bool _ same] Returns_bool
          \<open>in_sel_keys k keys (h ! d)\<close>
        show ?thesis by simp
      next
        case False
        from "5.IH"(2)[OF \<open>in_sel_keys k keys (h ! d)\<close> Returns_bool _ cl1 "5.prems"(2) d1 rest1]
          False
        obtain e' h' where
          "s_filter_items n ?h1 rest d func keys permissive = Some (e', h')"
          and "local_change m ?h1 h'" by auto
        with lc Returns_bool False \<open>in_sel_keys k keys (h ! d)\<close> show ?thesis
          by (auto intro: local_change_trans)
      qed
    next
      case (Returns_other r)
      with True show ?thesis by (simp add: local_change_refl)
    qed
  qed
qed

lemma s_map_ok:
  "closed_from m h \<Longrightarrow> m \<le> d \<Longrightarrow> readable n h (Ref d) \<Longrightarrow>
     \<exists>e h'. s_map_step n h d func keys p = Some (e, h') \<and> local_change m h h'"
  "closed_from m h \<Longrightarrow> m \<le> d \<Longrightarrow> d < length h \<Longrightarrow>
     \<forall>(k, v) \<in> set items. readable n h v \<and> valid_ref m h v \<Longrightarrow>
     \<exists>e h'. s_map_items n h items d func keys p = Some (e, h') \<and> local_change m h h'"
proof (induction n h d func keys p and n h items d func keys p
       rule: s_map_step_s_map_items.induct)
  case (1 h d func keys permissive)
  then show ?case by simp
next
  case (2 n h d func keys permissive)
  from "2.prems"(3) have d: "d < length h" and r: "\<forall>(k, v) \<in> set (h ! d). readable n h v"
    by auto
  have "\<forall>(k, v) \<in> set (h ! d). readable n h v \<and> valid_ref m h v"
    using r closed_from_entry[OF "2.prems"(1,2) d] by auto
  from "2.IH"[OF "2.prems"(1,2) d this] show ?case by simp
next
  case (3 n h d func keys permissive)
  then show ?case by (simp add: local_change_refl)
next
  case (4 n h k v rest d func keys permissive)
  from "4.prems"(4) have rv: "readable n h (Ref v)" and vv: "m \<le> v"
    and rest: "\<forall>(k, v) \<in> set rest. readable n h v \<and> valid_ref m h v"
    by (auto simp: valid_ref_def)
  from "4.IH"(1)[OF "4.prems"(1) vv rv] obtain e h1 where
    s: "s_map_step n h v func keys permissive = Some (e, h1)"
    and lc: "local_change m h h1" by blast
  show ?case
  proof (cases e)
    case (Some err)
    with s lc show ?thesis by auto
  next
    case None
    from lc have len: "length h1 = length h" by (simp add: local_change_def)
    have cl1: "closed_from m h1" by (rule closed_from_local_change[OF "4.prems"(1) lc])
    have rest1: "\<forall>(k, v) \<in> set rest. readable n h1 v \<and> valid_ref m h1 v"
      using rest readable_local_change[OF lc] len
      by (auto simp: valid_ref_def split: pyval.splits)
    from "4.IH"(2)[OF s refl None cl1 "4.prems"(2) _ rest1] "4.prems"(3) len
    obtain e' h' where "s_map_items n h1 rest d func keys permissive = Some (e', h')"
      and "local_change m h1 h'" by auto
    with s None lc show ?thesis by (auto intro: local_change_trans)
  qed
next
  case (5 n h k v rest d func keys permissive)
  from "5.prems"(4) have rest: "\<forall>(k, v) \<in> set rest. readable n h v \<and> valid_ref m h v"
    by auto
  note same = "5.prems"(1,2,3) rest
  show ?case
  proof (cases "in_sel_keys k keys (h ! d)")
    case False
    with "5.IH"(3)[OF False same] show ?thesis by simp
  next
    case True
    show ?thesis
    proof (cases "func v")
      case None
      show ?thesis
      proof (cases permissive)
        case True
        with "5.IH"(1)[OF \<open>in_sel_keys k keys (h ! d)\<close> None _ same] None
          \<open>in_sel_keys k keys (h ! d)\<close>
        show ?thesis by simp
      next
        case False
        with None \<open>in_sel_keys k keys (h ! d)\<close> show ?thesis
          by (simp add: local_change_refl)
      qed
    next
      case (Some new_val)
      let ?h1 = "h[d := AList.update k (Atom new_val) (h ! d)]"
      have lc: "local_change m h ?h1"
        by (rule local_change_update[OF "5.prems"(2,3)]) (auto dest: update_Ref_subset)
      have cl1: "closed_from m ?h1" by (rule closed_from_local_change[OF "5.prems"(1) lc])
      have rest1: "\<forall>(k, v) \<in> set rest. readable n ?h1 v \<and> valid_ref m ?h1 v"
        using rest readable_local_change[OF lc]
        by (auto simp: valid_ref_def split: pyval.splits)
      have d1: "d < length ?h1" using "5.prems"(3) by simp
      from "5.IH"(2)[OF True Some cl1 "5.prems"(2) d1 rest1]
      obtain e' h' where
        "s_map_items n ?h1 rest d func keys permissive = Some (e', h')"
        and "local_change m ?h1 h'" by auto
      with lc Some True show ?thesis
        by (auto intro: local_change_trans)
    qed
  qed
qed

lemma closed_from_length: "closed_from (length h) h"
  by (auto simp: closed_from_def)

lemma s_new_d_copy:
  assumes "tree_of fuel h (Ref d) = Some T"
  shows "\<exists>b h1. s_new_d fuel h (Ref d) False = Some (Ref b, h1) \<and>
           unchanged_below (length h) h h1 \<and> closed_from (length h) h1 \<and>
           length h \<le> b \<and> b < length h1 \<and> readable fuel h1 (Ref b)"
proof -
  from s_deepcopy_total(1)[OF assms] obtain v' h1 where
    c: "s_deepcopy fuel h (Ref d) = Some (v', h1)" and t: "tree_of fuel h1 v' = Some T"
    by blast
  from s_deepcopy_frame(1)[OF c] closed_from_length[of h]
  have u: "unchanged_below (length h) h h1" and v: "valid_ref (length h) h1 v'"
    and cl: "closed_from (length h) h1" by auto
  from c obtain b where b: "v' = Ref b"
    by (cases fuel) (auto split: option.splits)
  from tree_of_readable(1)[OF t] have "readable fuel h1 v'" .
  with c u v cl b show ?thesis by (auto simp: s_new_d_def valid_ref_def)
qed

lemma original_keptI:
  assumes "tree_of fuel h (Ref d) = Some T"
    and "unchanged_below (length h) h h'"
    and "case res of Inl e \<Rightarrow> True
         | Inr r \<Rightarrow> (\<exists>b. r = Some (Ref b) \<and> length h \<le> b \<and> b < length h')"
  shows "original_kept fuel h (Ref d) res h'"
  using assms unchanged_below_take[OF assms(2)] tree_of_unchanged(1)[OF assms(1,2)]
  by (simp add: original_kept_def)

lemma add_not_in_place:
  assumes "tree_of fuel h (Ref d) = Some T"
  shows "\<exists>res h' w. s_recursive_add fuel h (Ref d) key_path False = Some (res, h', w) \<and>
           original_kept fuel h (Ref d) res h'"
proof -
  from s_new_d_copy[OF assms] obtain b h1 where
    n: "s_new_d fuel h (Ref d) False = Some (Ref b, h1)"
    and u: "unchanged_below (length h) h h1" and cl: "closed_from (length h) h1"
    and b: "length h \<le> b" "b < length h1" by blast
  obtain e h2 w where
    s: "s_add_step h1 (Ref b) (keys_of (fst key_path)) (snd key_path) (fst key_path) = (e, h2, w)"
    by (metis prod_cases3)
  from b have v: "valid_ref (length h) h1 (Ref b)" by (simp add: valid_ref_def)
  from s_add_step_frame[OF cl v s] have u2: "unchanged_below (length h) h1 h2" .
  then have len: "length h1 \<le> length h2" by (simp add: unchanged_below_def)
  have u': "unchanged_below (length h) h h2" by (rule unchanged_below_trans[OF u u2])
  show ?thesis
  proof (cases e)
    case None
    have "original_kept fuel h (Ref d) (Inr (s_return False (Ref b))) h2"
      by (rule original_keptI[OF assms u']) (use b len in \<open>simp add: s_return_def\<close>)
    with n s None show ?thesis by (simp add: s_recursive_add_def)
  next
    case (Some err)
    have "original_kept fuel h (Ref d) (Inl err) h2"
      by (rule original_keptI[OF assms u']) simp
    with n s Some show ?thesis by (simp add: s_recursive_add_def)
  qed
qed

lemma replace_not_in_place:
  assumes "tree_of fuel h (Ref d) = Some T"
  shows "\<exists>res h'. s_recursive_replace ops fuel h (Ref d) key_path False = Some (res, h') \<and>
           original_kept fuel h (Ref d) res h'"
proof -
  from s_new_d_copy[OF assms] obtain b h1 where
    n: "s_new_d fuel h (Ref d) False = Some (Ref b, h1)"
    and u: "unchanged_below (length h) h h1" and cl: "closed_from (length h) h1"
    and b: "length h \<le> b" "b < length h1" by blast
  obtain e h2 new_d' where
    s: "s_replace_step ops h1 (Ref b) (keys_of (fst key_path)) (snd key_path) [] = (e, h2, new_d')"
    by (metis prod_cases3)
  from s_replace_step_Ref[OF s] have nd: "new_d' = Ref b" .
  from b have v: "valid_ref (length h) h1 (Ref b)" by (simp add: valid_ref_def)
  from s_replace_step_frame[OF cl v s] have u2: "unchanged_below (length h) h1 h2" .
  then have len: "length h1 \<le> length h2" by (simp add: unchanged_below_def)
  have u': "unchanged_below (length h) h h2" by (rule unchanged_below_trans[OF u u2])
  show ?thesis
  proof (cases e)
    case None
    have "original_kept fuel h (Ref d) (Inr (s_return False (Ref b))) h2"
      by (rule original_keptI[OF assms u']) (use b len in \<open>simp add: s_return_def\<close>)
    with n s None nd show ?thesis by (simp add: s_recursive_replace_def)
  next
    case (Some err)
    have "original_kept fuel h (Ref d) (Inl err) h2"
      by (rule original_keptI[OF assms u']) simp
    with n s Some show ?thesis by (simp add: s_recursive_replace_def)
  qed
qed

lemma remove_not_in_place:
  assumes "tree_of fuel h (Ref d) = Some T" and "tree_of fuel h (snd key_path) = Some V"
  shows "\<exists>res h'. s_recursive_remove fuel h (Ref d) key_path False = Some (res, h') \<and>
           original_kept fuel h (Ref d) res h'"
proof -
  from s_new_d_copy[OF assms(1)] obtain b h1 where
    n: "s_new_d fuel h (Ref d) False = Some (Ref b, h1)"
    and u: "unchanged_below (length h) h h1" and cl: "closed_from (length h) h1"
    and b: "length h \<le> b" "b < length h1" and r: "readable fuel h1 (Ref b)" by blast
  from b have v: "valid_ref (length h) h1 (Ref b)" by (simp add: valid_ref_def)
  have rv: "readable fuel h1 (snd key_path)"
    by (rule tree_of_readable(1)[OF tree_of_unchanged(1)[OF assms(2) u]])
  from s_remove_step_ok[OF cl v r rv] obtain e h2 where
    s: "s_remove_step fuel h1 (Ref b) (keys_of (fst key_path)) (snd key_path) [] = Some (e, h2)"
    and u2: "unchanged_below (length h) h1 h2" by blast
  then have len: "length h1 \<le> length h2" by (simp add: unchanged_below_def)
  have u': "unchanged_below (length h) h h2" by (rule unchanged_below_trans[OF u u2])
  show ?thesis
  proof (cases e)
    case None
    have "original_kept fuel h (Ref d) (Inr (s_return False (Ref b))) h2"
      by (rule original_keptI[OF assms(1) u']) (use b len in \<open>simp add: s_return_def\<close>)
    with n s None show ?thesis by (simp add: s_recursive_remove_def)
  next
    case (Some err)
    have "original_kept fuel h (Ref d) (Inl err) h2"
      by (rule original_keptI[OF assms(1) u']) simp
    with n s Some show ?thesis by (simp add: s_recursive_remove_def)
  qed
qed

lemma filter_not_in_place:
  fixes h :: "('k, 'a) store" and func :: "'a \<Rightarrow> 'r func_result"
  assumes "tree_of fuel h (Ref d) = Some T"
  shows "\<exists>res h'. s_recursive_filter_dict fuel h (Ref d) func keys False permissive
             = Some (res, h') \<and>
           original_kept fuel h (Ref d) res h'"
proof -
  from s_new_d_copy[OF assms(1)] obtain b h1 where
    n: "s_new_d fuel h (Ref d) False = Some (Ref b, h1)"
    and u: "unchanged_below (length h) h h1" and cl: "closed_from (length h) h1"
    and b: "length h \<le> b" "b < length h1" and r: "readable fuel h1 (Ref b)" by blast
  from s_filter_ok(1)[OF cl b(1) r] obtain e h2 where
    s: "s_filter_step fuel h1 b func keys permissive = Some (e, h2)"
    and lc: "local_change (length h) h1 h2" by blast
  then have len: "length h1 \<le> length h2" by (simp add: local_change_def)
  have u': "unchanged_below (length h) h h2"
    by (rule unchanged_below_trans[OF u local_change_unchanged[OF lc]])
  show ?thesis
  proof (cases e)
    case None
    have "original_kept fuel h (Ref d) (Inr (s_return False (Ref b)) :: ('a, 'r) func_error + 'a pyval option) h2"
      by (rule original_keptI[OF assms(1) u']) (use b len in \<open>simp add: s_return_def\<close>)
    with n s None show ?thesis by (simp add: s_recursive_filter_dict_def)
  next
    case (Some err)
    have "original_kept fuel h (Ref d) (Inl err) h2"
      by (rule original_keptI[OF assms(1) u']) simp
    with n s Some show ?thesis by (simp add: s_recursive_filter_dict_def)
  qed
qed

lemma map_not_in_place:
  fixes h :: "('k, 'a) store"
  assumes "tree_of fuel h (Ref d) = Some T"
  shows "\<exists>res h'. s_recursive_map_dict fuel h (Ref d) func keys False permissive
             = Some (res, h') \<and>
           original_kept fuel h (Ref d) res h'"
proof -
  from s_new_d_copy[OF assms(1)] obtain b h1 where
    n: "s_new_d fuel h (Ref d) False = Some (Ref b, h1)"
    and u: "unchanged_below (length h) h h1" and cl: "closed_from (length h) h1"
    and b: "length h \<le> b" "b < length h1" and r: "readable fuel h1 (Ref b)" by blast
  from s_map_ok(1)[OF cl b(1) r] obtain e h2 where
    s: "s_map_step fuel h1 b func keys permissive = Some (e, h2)"
    and lc: "local_change (length h) h1 h2" by blast
  then have len: "length h1 \<le> length h2" by (simp add: local_change_def)
  have u': "unchanged_below (length h) h h2"
    by (rule unchanged_below_trans[OF u local_change_unchanged[OF lc]])
  show ?thesis
  proof (cases e)
    case None
    have "original_kept fuel h (Ref d) (Inr (s_return False (Ref b)) :: ('a, unit) func_error + 'a pyval option) h2"
      by (rule original_keptI[OF assms(1) u']) (use b len in \<open>simp add: s_return_def\<close>)
    with n s None show ?thesis by (simp add: s_recursive_map_dict_def)
  next
    case (Some err)
    have "original_kept fuel h (Ref d) (Inl err) h2"
      by (rule original_keptI[OF assms(1) u']) simp
    with n s Some show ?thesis by (simp add: s_recursive_map_dict_def)
  qed
qed

lemma add_example_store:
  "s_recursive_add 4 example_store (Ref 3) (PyTuple [6, 3, 12], Atom 13) False =
     Some (Inr (Some (Ref 7)),
           [[(4, Atom 5)], [(7, Atom 8)], [(3, Ref 1), (7, Atom 10)],
            [(1, Atom 2), (3, Ref 0), (6, Ref 2), (7, Atom 11)],
            [(4, Atom 5)], [(7, Atom 8), (12, Atom 13)], [(3, Ref 5), (7, Atom 10)],
            [(1, Atom 2), (3, Ref 4), (6, Ref 6), (7, Atom 11)]], [])"
  by code_simp

text \<open>
  C8: for a caller's dictionary \<open>d\<close> that is a finite tree in the store, each of
  \<^verbatim>\<open>recursive_add\<close>, \<^verbatim>\<open>recursive_replace\<close>, \<^verbatim>\<open>recursive_remove\<close>,
  \<^verbatim>\<open>recursive_map_dict\<close> and \<^verbatim>\<open>recursive_filter_dict\<close>, called with
  \<^verbatim>\<open>in_place=False\<close>, terminates; whether it returns or raises, every dictionary object
  that existed before the call is unchanged, so the caller's dictionary reads as the
  same tree; and when it returns, it returns a dictionary object created by the call.
  On the example: \<^verbatim>\<open>recursive_add(T, ((6, 3, 12), 13), in_place=False)\<close> returns
  \<^verbatim>\<open>{1: 2, 3: {4: 5}, 6: {3: {7: 8, 12: 13}, 7: 10}, 7: 11}\<close> and \<open>T\<close> is as before.
\<close>

theorem C8_not_in_place:
  assumes "tree_of fuel h (Ref d) = Some T" and "tree_of fuel h (snd key_path) = Some V"
  shows "(\<exists>res h' w. s_recursive_add fuel h (Ref d) key_path False = Some (res, h', w) \<and>
            original_kept fuel h (Ref d) res h')
       \<and> (\<exists>res h'. s_recursive_replace ops fuel h (Ref d) key_path False = Some (res, h') \<and>
            original_kept fuel h (Ref d) res h')
       \<and> (\<exists>res h'. s_recursive_remove fuel h (Ref d) key_path False = Some (res, h') \<and>
            original_kept fuel h (Ref d) res h')
       \<and> (\<exists>res h'. s_recursive_map_dict fuel h (Ref d) mfunc keys False permissive
              = Some (res, h') \<and>
            original_kept fuel h (Ref d) res h')
       \<and> (\<exists>res h'. s_recursive_filter_dict fuel h (Ref d) ffunc keys False permissive
              = Some (res, h') \<and>
            original_kept fuel h (Ref d) res h')
       \<and> tree_of 4 example_store (Ref 3) = Some T_example
       \<and> (\<exists>h'. s_recursive_add 4 example_store (Ref 3) (PyTuple [6, 3, 12], Atom 13) False =
                  Some (Inr (Some (Ref 7)), h', [])
              \<and> tree_of 4 h' (Ref 7) =
                  Some (Dict [(1, Leaf 2), (3, Dict [(4, Leaf 5)]),
                              (6, Dict [(3, Dict [(7, Leaf 8), (12, Leaf 13)]), (7, Leaf 10)]),
                              (7, Leaf 11)])
              \<and> tree_of 4 h' (Ref 3) = Some T_example)"
proof -
  have ex1: "tree_of 4 example_store (Ref 3) = Some T_example"
    by code_simp
  have ex2: "tree_of 4 [[(4, Atom 5)], [(7, Atom 8)], [(3, Ref 1), (7, Atom 10)],
            [(1, Atom 2), (3, Ref 0), (6, Ref 2), (7, Atom 11)],
            [(4, Atom 5)], [(7, Atom 8), (12, Atom 13)], [(3, Ref 5), (7, Atom 10)],
            [(1 :: int, Atom (2 :: int)), (3, Ref 4), (6, Ref 6), (7, Atom 11)]] (Ref 7) =
                  Some (Dict [(1, Leaf 2), (3, Dict [(4, Leaf 5)]),
                              (6, Dict [(3, Dict [(7, Leaf 8), (12, Leaf 13)]), (7, Leaf 10)]),
                              (7, Leaf 11)])"
    by code_simp
  have ex3: "tree_of 4 [[(4, Atom 5)], [(7, Atom 8)], [(3, Ref 1), (7, Atom 10)],
            [(1, Atom 2), (3, Ref 0), (6, Ref 2), (7, Atom 11)],
            [(4, Atom 5)], [(7, Atom 8), (12, Atom 13)], [(3, Ref 5), (7, Atom 10)],
            [(1 :: int, Atom (2 :: int)), (3, Ref 4), (6, Ref 6), (7, Atom 11)]] (Ref 3) =
                  Some T_example"
    by code_simp
  from add_not_in_place[OF assms(1)] replace_not_in_place[OF assms(1)]
    remove_not_in_place[OF assms] map_not_in_place[OF assms(1)]
    filter_not_in_place[OF assms(1)] ex1 add_example_store ex2 ex3
  show ?thesis by blast
qed

theorem C8_not_in_place_witness:
  "tree_of 4 example_store (Ref 3) = Some T_example
   \<and> tree_of 4 example_store (snd (PyTuple [6 :: int, 3, 12], Atom (13 :: int))) = Some (Leaf 13)
   \<and> (\<exists>res h' w. s_recursive_add 4 example_store (Ref 3) (PyTuple [6, 3, 12], Atom 13) False
                    = Some (res, h', w) \<and>
          original_kept 4 example_store (Ref 3) res h')
   \<and> (\<exists>res h'. s_recursive_replace s_number_leaf 4 example_store (Ref 3)
                    (PyTuple [6, 3, 12], Atom 13) False
                    = Some (res, h') \<and>
          original_kept 4 example_store (Ref 3) res h')
   \<and> (\<exists>res h'. s_recursive_remove 4 example_store (Ref 3) (PyTuple [6, 3, 12], Atom 13) False
                    = Some (res, h') \<and>
          original_kept 4 example_store (Ref 3) res h')
   \<and> (\<exists>res h'. s_recursive_filter_dict 4 example_store (Ref 3)
                    (\<lambda>v. (Returns_bool (v > 4) :: unit func_result)) None False False
                    = Some (res, h') \<and>
          original_kept 4 example_store (Ref 3) res h')"
proof -
  have t: "tree_of 4 example_store (Ref 3) = Some T_example"
    by code_simp
  have v: "tree_of 4 example_store (snd (PyTuple [6 :: int, 3, 12], Atom (13 :: int)))
             = Some (Leaf 13)"
    by simp
  from C8_not_in_place[OF t v, where ops = s_number_leaf and mfunc = "\<lambda>v. Some v"
         and keys = None and permissive = False
         and ffunc = "\<lambda>v. (Returns_bool (v > 4) :: unit func_result)"] t v
  show ?thesis by blast
qed

end
